theory Spec2Isabelle
  imports Complex_Main "HOL-Library.Word" "HOL-Library.Log_Nat"
begin

section \<open>gotracer: querying an EPsolar Tracer charge controller\<close>

text \<open>
  A shallow embedding of \<^verbatim>\<open>gotracer.go\<close>: the command table \<^verbatim>\<open>queryStateCommand\<close>,
  \<^verbatim>\<open>readWithTimeout\<close>, \<^verbatim>\<open>unpack\<close> and \<^verbatim>\<open>Status\<close>. The serial port is the only
  collaborator; it is modelled as a scripted device that says, for each exchange, what
  \<^verbatim>\<open>Write\<close> returns and what the successive \<^verbatim>\<open>Read\<close> calls return and when.
\<close>

subsection \<open>Bytes and float32\<close>

type_synonym byte = "8 word"

text \<open>
  A \<^verbatim>\<open>float32\<close> is modelled by the rational number it denotes. Every value the program
  computes has magnitude at most \<open>2 ^ 32\<close> and is either zero or at least \<open>1 / 100\<close>, so
  neither infinities nor NaN arise, and no operation yields a negative zero.
  \<open>float32_round\<close> is IEEE 754 rounding to the nearest binary32 value, ties to the even
  significand: 24 significant bits, and the fixed quantum \<open>2 ^ - 149\<close> below \<open>2 ^ - 126\<close>.
\<close>

type_synonym float32 = rat

definition round_half_even :: "rat \<Rightarrow> int" where
  "round_half_even x =
     (let f = \<lfloor>x\<rfloor>; r = x - of_int f
      in if r < 1 / 2 then f
         else if 1 / 2 < r then f + 1
         else if even f then f else f + 1)"

text \<open>The binary exponent of a positive rational: \<open>2 powi binade x \<le> x < 2 powi (binade x + 1)\<close>.\<close>

definition binade :: "rat \<Rightarrow> int" where
  "binade x =
     (if 1 \<le> x then bitlen \<lfloor>x\<rfloor> - 1
      else - bitlen (\<lceil>1 / x\<rceil> - 1))"

definition float32_round :: "rat \<Rightarrow> float32" where
  "float32_round x =
     (if x = 0 then 0
      else let e = max (- 126) (binade \<bar>x\<bar>); q = 2 powi (e - 23)
           in of_int (round_half_even (x / q)) * q)"

text \<open>
  The conversion \<^verbatim>\<open>float32(v)\<close> of a \<^verbatim>\<open>uint32\<close>, and float32 division and subtraction:
  the exact result, rounded. The only divisor in the program is the constant 100.
\<close>

definition float32_of_uint32 :: "32 word \<Rightarrow> float32" where
  "float32_of_uint32 v = float32_round (of_int (uint v))"

definition float32_div :: "float32 \<Rightarrow> float32 \<Rightarrow> float32" where
  "float32_div x y = float32_round (x / y)"

definition float32_sub :: "float32 \<Rightarrow> float32 \<Rightarrow> float32" where
  "float32_sub x y = float32_round (x - y)"

subsection \<open>unpack\<close>

text \<open>
  \<^verbatim>\<open>func unpack(slice []byte) float32\<close>: the loop adds \<^verbatim>\<open>uint32(b) << shift\<close> to a
  \<^verbatim>\<open>uint32\<close> accumulator, with \<^verbatim>\<open>shift = (len(slice) - 1 - i) * 8\<close>. The accumulator
  wraps modulo \<open>2 ^ 32\<close> and a shift by 32 or more yields 0, as \<open>push_bit\<close> on a 32-bit
  word does.
\<close>

definition unpack_loop :: "byte list \<Rightarrow> 32 word" where
  "unpack_loop bs =
     foldl (\<lambda>v (i, b). v + push_bit ((length bs - 1 - i) * 8) (ucast b :: 32 word))
       0 (enumerate 0 bs)"

definition unpack :: "byte list \<Rightarrow> float32" where
  "unpack bs = float32_of_uint32 (unpack_loop bs)"

text \<open>
  The big-endian unsigned reading of a byte sequence, as the specification words it: for a
  sequence of length \<open>L\<close>, the byte at index \<open>i\<close> contributes
  \<^verbatim>\<open>byte[i] << (8 * (L-1-i))\<close>.
\<close>

definition big_endian :: "byte list \<Rightarrow> int" where
  "big_endian bs = (\<Sum>i<length bs. push_bit (8 * (length bs - 1 - i)) (uint (bs ! i)))"

subsection \<open>Errors and the port\<close>

text \<open>
  Error values: the three errors of package \<^verbatim>\<open>io\<close> that \<^verbatim>\<open>io.ReadAtLeast\<close> knows, any
  other error the serial port returns, and \<^verbatim>\<open>errors.New(msg)\<close>.
\<close>

datatype error =
    io_EOF
  | io_ErrUnexpectedEOF
  | io_ErrShortBuffer
  | port_error string
  | errors_New string

text \<open>
  One \<^verbatim>\<open>Read\<close> call on the port: the time it takes to return (in nanoseconds), the
  bytes it stores, and the error it returns.
\<close>

datatype read_result = Read_returns (elapsed: nat) (stored: "byte list") (failure: "error option")

text \<open>
  \<^verbatim>\<open>io.ReadAtLeast(r, buf, min)\<close> of the Go standard library:
  \<^verbatim>\<open>for n < min && err == nil { nn, err = r.Read(buf[n:]); n += nn }\<close>.
  The reader is the list of the results of its successive \<^verbatim>\<open>Read\<close> calls; when the list
  is used up the next \<^verbatim>\<open>Read\<close> blocks for ever, and the loop does not return
  (\<open>None\<close>). A \<^verbatim>\<open>Read\<close> stores at most \<^verbatim>\<open>len(buf[n:])\<close> bytes. The result is the time of
  return, the buffer, the count and the error.
\<close>

fun ReadAtLeast_loop ::
  "read_result list \<Rightarrow> byte list \<Rightarrow> nat \<Rightarrow> nat \<Rightarrow> error option \<Rightarrow> nat
     \<Rightarrow> (nat \<times> byte list \<times> nat \<times> error option) option" where
  "ReadAtLeast_loop rs buf m n err t =
     (if n < m \<and> err = None then
        (case rs of
           [] \<Rightarrow> None
         | r # rs' \<Rightarrow>
             (let got = take (length buf - n) (stored r)
              in ReadAtLeast_loop rs' (take n buf @ got @ drop (n + length got) buf) m
                   (n + length got) (failure r) (t + elapsed r)))
      else Some (t, buf, n, err))"

definition ReadAtLeast ::
  "read_result list \<Rightarrow> byte list \<Rightarrow> nat
     \<Rightarrow> (nat \<times> byte list \<times> nat \<times> error option) option" where
  "ReadAtLeast rs buf m =
     (if length buf < m then Some (0, buf, 0, Some io_ErrShortBuffer)
      else
        (case ReadAtLeast_loop rs buf m 0 None 0 of
           None \<Rightarrow> None
         | Some (t, buf', n, err) \<Rightarrow>
             Some (t, buf', n,
               if m \<le> n then None
               else if 0 < n \<and> err = Some io_EOF then Some io_ErrUnexpectedEOF
               else err)))"

subsection \<open>readWithTimeout\<close>

text \<open>\<^verbatim>\<open>time.Sleep(2e9)\<close>: two seconds, in nanoseconds.\<close>

definition sleep_ns :: nat where
  "sleep_ns = 2000000000"

text \<open>
  \<^verbatim>\<open>func readWithTimeout(r io.Reader, n int) ([]byte, error)\<close> starts the read into a
  fresh 120-byte buffer and then the timer, and \<^verbatim>\<open>select\<close> takes the first of the two
  to send. The timer is started after the read and sleeps at least two seconds, so a read
  that returns within two seconds is taken; otherwise the result is the nil slice and
  \<^verbatim>\<open>errors.New("Timed out.")\<close>. The count that \<^verbatim>\<open>io.ReadAtLeast\<close> returns is dropped:
  the caller gets the whole 120-byte buffer.
\<close>

definition readWithTimeout :: "read_result list \<Rightarrow> nat \<Rightarrow> byte list \<times> error option" where
  "readWithTimeout r n =
     (case ReadAtLeast r (replicate 120 0) n of
        None \<Rightarrow> ([], Some (errors_New ''Timed out.''))
      | Some (t, buf, k, err) \<Rightarrow>
          if t \<le> sleep_ns then (buf, err) else ([], Some (errors_New ''Timed out.'')))"

text \<open>
  \<^verbatim>\<open>io.ReadAtLeast\<close> on a fresh 120-byte buffer returns within \<open>T\<close> nanoseconds. When it
  has not returned within \<open>sleep_ns\<close>, \<^verbatim>\<open>select\<close> takes the timer's branch and
  \<open>readWithTimeout\<close> returns while the goroutine that runs \<^verbatim>\<open>io.ReadAtLeast\<close> is left
  behind, still reading from the port: nothing cancels it.
\<close>

definition returns_within :: "read_result list \<Rightarrow> nat \<Rightarrow> nat \<Rightarrow> bool" where
  "returns_within rs n T =
     (case ReadAtLeast rs (replicate 120 0) n of
        None \<Rightarrow> False
      | Some (t, buf, k, err) \<Rightarrow> t \<le> T)"

subsection \<open>The command table\<close>

record command =
  data :: "byte list"
  respLen :: nat
  offset :: nat

definition queryStateCommand :: "command list" where
  "queryStateCommand =
     [\<lparr>data = [0x01, 0x04, 0x32, 0x00, 0x00, 0x03, 0xbe, 0xb3], respLen = 11, offset = 0\<rparr>,
      \<lparr>data = [0x01, 0x02, 0x20, 0x00, 0x00, 0x01, 0xb2, 0x0a], respLen = 6, offset = 11\<rparr>,
      \<lparr>data = [0x01, 0x43, 0x31, 0x00, 0x00, 0x1b, 0x0a, 0xf2], respLen = 51, offset = 17\<rparr>,
      \<lparr>data = [0x01, 0x04, 0x33, 0x1a, 0x00, 0x03, 0x9e, 0x88], respLen = 11, offset = 68\<rparr>,
      \<lparr>data = [0x01, 0x04, 0x33, 0x02, 0x00, 0x12, 0xde, 0x83], respLen = 41, offset = 79\<rparr>]"

subsection \<open>Assembling the response buffer\<close>

text \<open>
  The builtin \<^verbatim>\<open>copy(dst, src)\<close> copies \<^verbatim>\<open>min(len(dst), len(src))\<close> bytes; the result is
  the new contents of \<^verbatim>\<open>dst\<close>.
\<close>

definition copy :: "byte list \<Rightarrow> byte list \<Rightarrow> byte list" where
  "copy dst src =
     take (min (length dst) (length src)) src @ drop (min (length dst) (length src)) dst"

text \<open>
  \<^verbatim>\<open>copy(buffer[r.offset:], b)\<close>: the slice expression panics when the offset exceeds
  the length of the buffer (\<open>None\<close>).
\<close>

definition place :: "byte list \<Rightarrow> nat \<Rightarrow> byte list \<Rightarrow> byte list option" where
  "place buffer off b =
     (if length buffer < off then None
      else Some (take off buffer @ copy (drop off buffer) b))"

text \<open>
  The device: for the \<open>i\<close>-th exchange, the error that \<^verbatim>\<open>port.Write\<close> returns (if any)
  and the \<^verbatim>\<open>Read\<close> results that follow.
\<close>

type_synonym device = "nat \<Rightarrow> error option \<times> read_result list"

text \<open>
  How the loop ends: with the buffer filled; with the error of a write or of a read that
  has returned (\<open>Failed\<close>); with the error of a read that timed out, whose goroutine is
  left reading from the port (\<open>Abandoned\<close>); or in a panic.
\<close>

datatype loop_result = Filled "byte list" | Failed error | Abandoned error | Panicked

text \<open>
  The loop \<^verbatim>\<open>for _, r := range queryStateCommand\<close> of \<^verbatim>\<open>Status\<close>, from the \<open>i\<close>-th
  exchange on. \<open>ws\<close> lists the frames passed to \<^verbatim>\<open>port.Write\<close> so far.
\<close>

fun query_loop ::
  "command list \<Rightarrow> nat \<Rightarrow> device \<Rightarrow> byte list list \<Rightarrow> byte list
     \<Rightarrow> byte list list \<times> loop_result" where
  "query_loop [] i dev ws buffer = (ws, Filled buffer)"
| "query_loop (r # rs) i dev ws buffer =
     (case fst (dev i) of
        Some e \<Rightarrow> (ws @ [data r], Failed e)
      | None \<Rightarrow>
          (case readWithTimeout (snd (dev i)) (respLen r) of
             (b, Some e) \<Rightarrow>
               (ws @ [data r],
                if returns_within (snd (dev i)) (respLen r) sleep_ns then Failed e
                else Abandoned e)
           | (b, None) \<Rightarrow>
               (case place buffer (offset r) b of
                  None \<Rightarrow> (ws @ [data r], Panicked)
                | Some buffer' \<Rightarrow> query_loop rs (Suc i) dev (ws @ [data r]) buffer')))"

subsection \<open>Decoding\<close>

record TracerStatus =
  ArrayVoltage :: float32
  ArrayCurrent :: float32
  ArrayPower :: float32
  BatteryVoltage :: float32
  BatteryCurrent :: float32
  BatterySOC :: int
  BatteryTemp :: float32
  BatteryMaxVoltage :: float32
  BatteryMinVoltage :: float32
  DeviceTemp :: float32
  LoadVoltage :: float32
  LoadCurrent :: float32
  LoadPower :: float32
  Load :: bool
  EnergyConsumedDaily :: float32
  EnergyConsumedMonthly :: float32
  EnergyConsumedAnnual :: float32
  EnergyConsumedTotal :: float32
  EnergyGeneratedDaily :: float32
  EnergyGeneratedMonthly :: float32
  EnergyGeneratedAnnual :: float32
  EnergyGeneratedTotal :: float32
  Timestamp :: nat

text \<open>The zero value of \<^verbatim>\<open>TracerStatus\<close>: what the named result \<^verbatim>\<open>t\<close> holds before line 125.\<close>

definition zero_TracerStatus :: TracerStatus where
  "zero_TracerStatus =
     \<lparr>ArrayVoltage = 0, ArrayCurrent = 0, ArrayPower = 0, BatteryVoltage = 0,
      BatteryCurrent = 0, BatterySOC = 0, BatteryTemp = 0, BatteryMaxVoltage = 0,
      BatteryMinVoltage = 0, DeviceTemp = 0, LoadVoltage = 0, LoadCurrent = 0, LoadPower = 0,
      Load = False, EnergyConsumedDaily = 0, EnergyConsumedMonthly = 0,
      EnergyConsumedAnnual = 0, EnergyConsumedTotal = 0, EnergyGeneratedDaily = 0,
      EnergyGeneratedMonthly = 0, EnergyGeneratedAnnual = 0, EnergyGeneratedTotal = 0,
      Timestamp = 0\<rparr>"

text \<open>The slice expression \<^verbatim>\<open>buffer[lo:hi]\<close>, for \<open>lo \<le> hi \<le> length buffer\<close>.\<close>

definition subslice :: "byte list \<Rightarrow> nat \<Rightarrow> nat \<Rightarrow> byte list" where
  "subslice buffer lo hi = take (hi - lo) (drop lo buffer)"

text \<open>Lines 141 to 143: \<^verbatim>\<open>if bc > 32768 { bc = bc - 65536 }\<close>.\<close>

definition sign_correct :: "float32 \<Rightarrow> float32" where
  "sign_correct bc = (if 32768 < bc then float32_sub bc 65536 else bc)"

text \<open>
  Lines 125 to 154 of \<^verbatim>\<open>Status\<close>: the fields of the snapshot, read from the buffer at
  fixed positions. \<open>now\<close> is what \<^verbatim>\<open>time.Now().UTC()\<close> returns. The largest index used is
  115; on a shorter buffer an index or slice expression panics (\<open>None\<close>).
\<close>

definition decode :: "byte list \<Rightarrow> nat \<Rightarrow> TracerStatus option" where
  "decode buffer now =
     (if length buffer < 116 then None
      else Some
        \<lparr>ArrayVoltage = float32_div (unpack (subslice buffer 24 26)) 100,
         ArrayCurrent = float32_div (unpack (subslice buffer 26 28)) 100,
         ArrayPower = float32_div (unpack (subslice buffer 28 30)) 100,
         BatteryVoltage = float32_div (unpack (subslice buffer 32 34)) 100,
         BatteryCurrent = float32_div (sign_correct (unpack (subslice buffer 73 75))) 100,
         BatterySOC = uint (buffer ! 65),
         BatteryTemp = float32_div (unpack (subslice buffer 56 58)) 100,
         BatteryMaxVoltage = float32_div (unpack (subslice buffer 82 84)) 100,
         BatteryMinVoltage = float32_div (unpack (subslice buffer 84 86)) 100,
         DeviceTemp = float32_div (unpack (subslice buffer 58 60)) 100,
         LoadVoltage = float32_div (unpack (subslice buffer 40 42)) 100,
         LoadCurrent = float32_div (unpack (subslice buffer 42 44)) 100,
         LoadPower = float32_div (unpack (subslice buffer 44 46)) 100,
         Load = (uint (buffer ! 8) = 1),
         EnergyConsumedDaily = float32_div (unpack (subslice buffer 86 88)) 100,
         EnergyConsumedMonthly = float32_div (unpack (subslice buffer 88 92)) 100,
         EnergyConsumedAnnual = float32_div (unpack (subslice buffer 92 96)) 100,
         EnergyConsumedTotal = float32_div (unpack (subslice buffer 96 100)) 100,
         EnergyGeneratedDaily = float32_div (unpack (subslice buffer 100 104)) 100,
         EnergyGeneratedMonthly = float32_div (unpack (subslice buffer 104 108)) 100,
         EnergyGeneratedAnnual = float32_div (unpack (subslice buffer 108 112)) 100,
         EnergyGeneratedTotal = float32_div (unpack (subslice buffer 112 116)) 100,
         Timestamp = now\<rparr>)"

subsection \<open>Status\<close>

text \<open>
  What a call of \<^verbatim>\<open>Status\<close> meets: the error of \<^verbatim>\<open>serial.Open\<close> for a port name (if
  any), the device behind the port, the clock, and whether \<^verbatim>\<open>port.Close()\<close> returns when
  it is called while a \<^verbatim>\<open>Read\<close> on the port has not returned. The last is the port's
  behaviour; the source does not decide it.
\<close>

record world =
  serial_Open :: "string \<Rightarrow> error option"
  answers :: device
  clock :: nat
  Close_returns :: bool

text \<open>
  What the port has seen of the call: the frames written, and whether \<^verbatim>\<open>Close\<close> has
  returned.
\<close>

record port =
  written :: "byte list list"
  closed :: bool

text \<open>
  How a call ends: it returns a snapshot and an error, it panics, or it never returns
  (\<open>Hangs\<close>).
\<close>

datatype outcome = Returns TracerStatus "error option" | Panics | Hangs

text \<open>
  \<^verbatim>\<open>func Status(portName string) (t TracerStatus, err error)\<close>. The second component is
  the port, when it was opened. \<^verbatim>\<open>defer port.Close()\<close> runs on every path once the port
  is open, and the call returns when \<^verbatim>\<open>Close\<close> has returned. After a timeout
  \<^verbatim>\<open>Close\<close> runs while the abandoned read is still in flight; when it does not return
  then, neither does \<^verbatim>\<open>Status\<close>.
\<close>

definition Status :: "string \<Rightarrow> world \<Rightarrow> outcome \<times> port option" where
  "Status portName w =
     (case serial_Open w portName of
        Some e \<Rightarrow> (Returns zero_TracerStatus (Some e), None)
      | None \<Rightarrow>
          (case query_loop queryStateCommand 0 (answers w) [] (replicate 120 0) of
             (ws, Failed e) \<Rightarrow>
               (Returns zero_TracerStatus (Some e), Some \<lparr>written = ws, closed = True\<rparr>)
           | (ws, Abandoned e) \<Rightarrow>
               (if Close_returns w
                then (Returns zero_TracerStatus (Some e),
                      Some \<lparr>written = ws, closed = True\<rparr>)
                else (Hangs, Some \<lparr>written = ws, closed = False\<rparr>))
           | (ws, Panicked) \<Rightarrow> (Panics, Some \<lparr>written = ws, closed = True\<rparr>)
           | (ws, Filled buffer) \<Rightarrow>
               (case decode buffer (clock w) of
                  None \<Rightarrow> (Panics, Some \<lparr>written = ws, closed = True\<rparr>)
                | Some t \<Rightarrow> (Returns t None, Some \<lparr>written = ws, closed = True\<rparr>))))"

subsection \<open>Notions used in the statements\<close>

text \<open>
  The port delivers exactly the bytes \<open>bs\<close> in answer to a request: the \<^verbatim>\<open>Read\<close> calls
  store \<open>bs\<close> between them, none returns an error, and together they take no longer than
  the timer.
\<close>

definition delivers :: "read_result list \<Rightarrow> byte list \<Rightarrow> bool" where
  "delivers rs bs =
     (concat (map stored rs) = bs \<and> list_all (\<lambda>r. failure r = None) rs
      \<and> sum_list (map elapsed rs) \<le> sleep_ns)"

text \<open>
  A list of commands tiles the buffer from \<open>off\<close> on: each offset is the previous offset
  plus the previous reply length.
\<close>

fun tiled :: "nat \<Rightarrow> command list \<Rightarrow> bool" where
  "tiled off [] = True"
| "tiled off (r # rs) = (offset r = off \<and> tiled (off + respLen r) rs)"

text \<open>
  The \<open>i\<close>-th exchange succeeds with a reply of exactly the declared length: the write
  returns no error and the port delivers the bytes \<open>bs\<close>, as many as the \<open>i\<close>-th command
  of the table declares.
\<close>

definition answers_exactly :: "device \<Rightarrow> nat \<Rightarrow> byte list \<Rightarrow> bool" where
  "answers_exactly dev i bs =
     (fst (dev i) = None \<and> delivers (snd (dev i)) bs
      \<and> length bs = respLen (queryStateCommand ! i))"

text \<open>
  The error of the \<open>i\<close>-th exchange, as the body of the loop finds it: the error of
  \<^verbatim>\<open>port.Write\<close>, or else the error of \<^verbatim>\<open>readWithTimeout\<close>; \<open>None\<close> when both succeed.
\<close>

definition exchange_error :: "device \<Rightarrow> nat \<Rightarrow> error option" where
  "exchange_error dev i =
     (case fst (dev i) of
        Some e \<Rightarrow> Some e
      | None \<Rightarrow> snd (readWithTimeout (snd (dev i)) (respLen (queryStateCommand ! i))))"

text \<open>The frames a call of \<open>Status\<close> has passed to \<^verbatim>\<open>port.Write\<close>.\<close>

definition frames_written :: "string \<Rightarrow> world \<Rightarrow> byte list list" where
  "frames_written portName w =
     (case snd (Status portName w) of None \<Rightarrow> [] | Some p \<Rightarrow> written p)"

subsection \<open>An example run\<close>

text \<open>
  A 120-byte buffer with the load on (byte 8), an array voltage of 12.34 V (bytes 24 and
  25), a state of charge of 80 % (byte 65) and a battery current of -2.00 A (bytes 73 and
  74); a device that sends each region of it as the reply to the corresponding command, the
  first four bytes after 3 ms and the rest 1 ms later.
\<close>

definition example_buffer :: "byte list" where
  "example_buffer =
     replicate 8 0 @ [0x01] @ replicate 15 0 @ [0x04, 0xD2] @ replicate 39 0 @ [0x50]
       @ replicate 7 0 @ [0xFF, 0x38] @ replicate 45 0"

definition example_reply :: "nat \<Rightarrow> byte list" where
  "example_reply i =
     subslice example_buffer (offset (queryStateCommand ! i))
       (offset (queryStateCommand ! i) + respLen (queryStateCommand ! i))"

definition example_device :: device where
  "example_device i =
     (None, [Read_returns 3000000 (take 4 (example_reply i)) None,
             Read_returns 1000000 (drop 4 (example_reply i)) None])"

definition example_world :: world where
  "example_world =
     \<lparr>serial_Open = (\<lambda>_. None), answers = example_device, clock = 1446336000,
      Close_returns = False\<rparr>"

text \<open>A port on which the first write fails.\<close>

definition write_failure_world :: world where
  "write_failure_world =
     \<lparr>serial_Open = (\<lambda>_. None), answers = (\<lambda>i. (Some (port_error ''write failed''), [])),
      clock = 1446336000, Close_returns = False\<rparr>"

text \<open>
  A device that answers the first two commands like the example device, and sends the
  third reply too slowly: 20 bytes after 3 ms, the other 31 bytes 2.5 s later.
\<close>

definition slow_device :: device where
  "slow_device i =
     (if i = 2 then
        (None, [Read_returns 3000000 (take 20 (example_reply 2)) None,
                Read_returns 2500000000 (drop 20 (example_reply 2)) None])
      else example_device i)"

text \<open>On the port of \<open>slow_world\<close>, \<^verbatim>\<open>Close\<close> returns under a read in flight.\<close>

definition slow_world :: world where
  "slow_world =
     \<lparr>serial_Open = (\<lambda>_. None), answers = slow_device, clock = 1446336000,
      Close_returns = True\<rparr>"

text \<open>
  A device that never answers: every write succeeds and no \<^verbatim>\<open>Read\<close> ever returns. On
  its port \<^verbatim>\<open>Close\<close> does not return while a \<^verbatim>\<open>Read\<close> is in flight.
\<close>

definition silent_world :: world where
  "silent_world =
     \<lparr>serial_Open = (\<lambda>_. None), answers = (\<lambda>i. (None, [])), clock = 1446336000,
      Close_returns = False\<rparr>"

text \<open>A buffer that is zero but for the two bytes of the battery current, at 73 and 74.\<close>

definition battery_current_buffer :: "byte \<Rightarrow> byte \<Rightarrow> byte list" where
  "battery_current_buffer hi lo = replicate 73 0 @ [hi, lo] @ replicate 45 0"

section \<open>Properties\<close>

subsection \<open>float32 rounding\<close>

lemma round_half_even_of_int: "round_half_even (of_int k) = k"
  by (simp add: round_half_even_def)

lemma binade_int_bounds:
  assumes "0 < k" "k < 2 ^ 24"
  shows "0 \<le> binade (of_int k)" "binade (of_int k) \<le> 23"
proof -
  have b: "binade (of_int k) = bitlen k - 1"
    using assms by (simp add: binade_def)
  have "bitlen k \<noteq> 0" using assms(1) by (simp add: bitlen_eq_zero_iff)
  with bitlen_nonneg[of k] have p: "1 \<le> bitlen k" by linarith
  from bitlen_bounds[OF assms(1)] assms(2) have "(2::int) ^ nat (bitlen k - 1) < 2 ^ 24"
    by linarith
  then have "nat (bitlen k - 1) < 24" by (rule power_less_imp_less_exp[rotated]) simp
  then show "0 \<le> binade (of_int k)" "binade (of_int k) \<le> 23" using p b by auto
qed

text \<open>Integers below \<open>2 ^ 24\<close> in magnitude are binary32 values: rounding leaves them alone.\<close>

lemma float32_round_int:
  assumes "\<bar>k\<bar> < 2 ^ 24"
  shows "float32_round (of_int k) = of_int k"
proof (cases "k = 0")
  case True then show ?thesis by (simp add: float32_round_def)
next
  case False
  then have p: "0 < \<bar>k\<bar>" by simp
  define e where "e = binade (of_int \<bar>k\<bar>)"
  have e: "0 \<le> e" "e \<le> 23" using binade_int_bounds[OF p assms] by (simp_all add: e_def)
  define n where "n = nat (23 - e)"
  have q: "(2::rat) powi (e - 23) = inverse (2 ^ n)"
    using e by (simp add: power_int_def n_def power_one_over inverse_eq_divide)
  have "of_int k / inverse ((2::rat) ^ n) = of_int (k * 2 ^ n)"
    by (simp add: field_simps)
  then have r: "round_half_even (of_int k / inverse ((2::rat) ^ n)) = k * 2 ^ n"
    by (simp only: round_half_even_of_int)
  have a: "\<bar>of_int k :: rat\<bar> = of_int \<bar>k\<bar>" by simp
  have m: "max (- 126) e = e" using e by simp
  show ?thesis
    using False unfolding float32_round_def a e_def[symmetric] m Let_def q r
    by simp
qed

lemma float32_round_small_int:
  assumes "0 \<le> k" "k < 2 ^ 24"
  shows "float32_round (of_int k) = of_int k"
  by (rule float32_round_int) (use assms in simp)

text \<open>
  \<open>binade\<close> is the exponent of the binade and \<open>round_half_even\<close> a nearest integer,
  so \<open>float32_round x\<close> is a multiple of the unit in the last place of \<open>x\<close>, with a
  24-bit significand, at most half a unit away from \<open>x\<close>.
\<close>

lemma binade_bracket_ge1:
  assumes "1 \<le> x"
  shows "2 powi (binade x) \<le> x \<and> x < 2 powi (binade x + 1)"
proof -
  define k where "k = \<lfloor>x\<rfloor>"
  have k: "1 \<le> k" using assms by (simp add: k_def le_floor_iff)
  define c where "c = bitlen k"
  from bitlen_bounds[of k] k have b: "2 ^ nat (c - 1) \<le> k" "k < 2 ^ nat c"
    by (simp_all add: c_def)
  have c1: "1 \<le> c" using bitlen_eq_zero_iff[of k] bitlen_nonneg[of k] k
    by (simp add: c_def)
  have e: "binade x = c - 1" using assms by (simp add: binade_def k_def c_def)
  have p1: "(2::rat) powi (c - 1) = of_int (2 ^ nat (c - 1))"
    using c1 by (simp add: power_int_def)
  have p2: "(2::rat) powi (c - 1 + 1) = of_int (2 ^ nat c)"
    using c1 by (simp add: power_int_def)
  have "of_int k \<le> x" by (simp add: k_def)
  with b(1) have l: "of_int (2 ^ nat (c - 1)) \<le> x"
    by (meson of_int_le_iff order_trans)
  have "x < of_int k + 1" using floor_correct[of x] by (simp add: k_def)
  moreover have "k + 1 \<le> 2 ^ nat c" using b(2) by simp
  then have "(of_int (k + 1) :: rat) \<le> of_int (2 ^ nat c)" by (simp only: of_int_le_iff)
  then have "(of_int k :: rat) + 1 \<le> of_int (2 ^ nat c)" by simp
  ultimately have u: "x < of_int (2 ^ nat c)" by linarith
  show ?thesis unfolding e p1 p2 using l u by simp
qed

lemma binade_bracket_lt1:
  assumes "0 < x" and "x < 1"
  shows "2 powi (binade x) \<le> x \<and> x < 2 powi (binade x + 1)"
proof -
  define y where "y = 1 / x"
  have y: "1 < y" using assms by (simp add: y_def)
  define m where "m = \<lceil>y\<rceil>"
  have m: "2 \<le> m" using y by (simp add: m_def le_ceiling_iff)
  define c where "c = bitlen (m - 1)"
  from bitlen_bounds[of "m - 1"] m have b: "2 ^ nat (c - 1) \<le> m - 1" "m - 1 < 2 ^ nat c"
    by (simp_all add: c_def)
  have c1: "1 \<le> c" using bitlen_eq_zero_iff[of "m - 1"] bitlen_nonneg[of "m - 1"] m
    by (simp add: c_def)
  have e: "binade x = - c" using assms by (simp add: binade_def y_def m_def c_def)
  have ym: "y \<le> of_int m" "of_int (m - 1) < y"
    by (simp_all add: m_def) (use ceiling_correct[of y] in linarith)
  have "m \<le> 2 ^ nat c" using b(2) by simp
  then have "(of_int m :: rat) \<le> of_int (2 ^ nat c)" by (simp only: of_int_le_iff)
  then have "(of_int m :: rat) \<le> 2 ^ nat c" by simp
  with ym(1) have u: "y \<le> 2 ^ nat c" by linarith
  have "(of_int (2 ^ nat (c - 1)) :: rat) \<le> of_int (m - 1)"
    using b(1) by (simp only: of_int_le_iff)
  then have "(2::rat) ^ nat (c - 1) \<le> of_int (m - 1)" by simp
  with ym(2) have l: "2 ^ nat (c - 1) < y" by linarith
  have p1: "(2::rat) powi (- c) = 1 / 2 ^ nat c"
    using c1 by (simp add: power_int_def power_one_over inverse_eq_divide)
  have p2: "(2::rat) powi (- c + 1) = 1 / 2 ^ nat (c - 1)"
    using c1 by (simp add: power_int_def power_one_over inverse_eq_divide nat_diff_distrib) 
  have x: "x = 1 / y" using assms by (simp add: y_def)
  have "1 / 2 ^ nat c \<le> x"
    unfolding x using u y by (simp add: field_simps)
  moreover have "x < 1 / 2 ^ nat (c - 1)"
    unfolding x using l y by (simp add: field_simps)
  ultimately show ?thesis unfolding e p1 p2 by simp
qed

lemma binade_bracket:
  assumes "0 < x"
  shows "2 powi (binade x) \<le> x \<and> x < 2 powi (binade x + 1)"
  using binade_bracket_ge1[of x] binade_bracket_lt1[of x] assms by (cases "1 \<le> x") auto

lemma round_half_even_nearest: "\<bar>of_int (round_half_even x) - x\<bar> \<le> 1 / 2"
proof -
  have "of_int \<lfloor>x\<rfloor> \<le> x" "x < of_int \<lfloor>x\<rfloor> + 1" by linarith+
  then show ?thesis
    by (auto simp: round_half_even_def Let_def abs_le_iff)
qed


lemma float32_round_error:
  assumes "x \<noteq> 0"
  shows "\<bar>float32_round x - x\<bar> \<le> 2 powi (max (- 126) (binade \<bar>x\<bar>) - 24)"
proof -
  define e where "e = max (- 126) (binade \<bar>x\<bar>)"
  define q :: rat where "q = 2 powi (e - 23)"
  have q: "0 < q" by (simp add: q_def)
  have h: "q / 2 = 2 powi (e - 24)"
  proof -
    have "(2::rat) powi (e - 23) = 2 powi (e - 24 + 1)" by simp
    also have "\<dots> = 2 powi (e - 24) * 2" by (subst power_int_add) simp_all
    finally show ?thesis by (simp add: q_def)
  qed
  have f: "float32_round x = of_int (round_half_even (x / q)) * q"
    using assms by (simp add: float32_round_def Let_def e_def q_def)
  have "float32_round x - x = (of_int (round_half_even (x / q)) - x / q) * q"
    using q by (simp add: f field_simps)
  then have "\<bar>float32_round x - x\<bar> = \<bar>of_int (round_half_even (x / q)) - x / q\<bar> * q"
    using q by (simp add: abs_mult)
  also have "\<dots> \<le> (1 / 2) * q"
    using round_half_even_nearest[of "x / q"] q by (intro mult_right_mono) simp_all
  finally show ?thesis using h by (simp add: e_def)
qed

lemma float32_round_representable:
  assumes "x \<noteq> 0" and "- 126 \<le> binade \<bar>x\<bar>"
  shows "\<exists>m. float32_round x = of_int m * 2 powi (binade \<bar>x\<bar> - 23) \<and> \<bar>m\<bar> \<le> 2 ^ 24"
proof -
  define e where "e = binade \<bar>x\<bar>"
  define q :: rat where "q = 2 powi (e - 23)"
  have q: "0 < q" by (simp add: q_def)
  have m: "max (- 126) e = e" using assms(2) by (simp add: e_def)
  have f: "float32_round x = of_int (round_half_even (x / q)) * q"
    using assms(1) m by (simp add: float32_round_def Let_def e_def[symmetric] q_def)
  have "\<bar>x\<bar> < 2 powi (e + 1)" using binade_bracket[of "\<bar>x\<bar>"] assms(1) by (simp add: e_def)
  also have "(2::rat) powi (e + 1) = 2 powi (e - 23) * 2 powi 24"
    by (subst power_int_add[symmetric]) (simp_all add: add.commute)
  finally have "\<bar>x\<bar> < q * 2 ^ 24" by (simp add: q_def)
  then have "\<bar>x / q\<bar> < 2 ^ 24" using q by (simp add: field_simps abs_if split: if_splits)
  with round_half_even_nearest[of "x / q"]
  have "\<bar>(of_int (round_half_even (x / q)) :: rat)\<bar> < 2 ^ 24 + 1"
    by linarith
  then have "(of_int \<bar>round_half_even (x / q)\<bar> :: rat) < of_int (2 ^ 24 + 1)" by simp
  then have "\<bar>round_half_even (x / q)\<bar> < 2 ^ 24 + 1" by (simp only: of_int_less_iff)
  then have "\<bar>round_half_even (x / q)\<bar> \<le> 2 ^ 24" by simp
  with f show ?thesis unfolding q_def e_def by blast
qed

subsection \<open>unpack\<close>

lemma uint_byte_lt: "uint (b :: byte) < 256"
  using uint_bounded[of b] by simp

lemma length_le_4_cases:
  assumes "length (bs :: 'a list) \<le> 4"
  obtains "bs = []" | a where "bs = [a]" | a b where "bs = [a, b]"
    | a b c where "bs = [a, b, c]" | a b c d where "bs = [a, b, c, d]"
proof (cases bs)
  case Nil then show ?thesis using that by simp
next
  case (Cons a bs1)
  note c1 = this
  show ?thesis
  proof (cases bs1)
    case Nil then show ?thesis using that c1 by simp
  next
    case (Cons b bs2)
    note c2 = this
    show ?thesis
    proof (cases bs2)
      case Nil then show ?thesis using that c1 c2 by simp
    next
      case (Cons c bs3)
      note c3 = this
      show ?thesis
      proof (cases bs3)
        case Nil then show ?thesis using that c1 c2 c3 by simp
      next
        case (Cons d bs4)
        then have "bs4 = []" using assms c1 c2 c3 by simp
        then show ?thesis using that c1 c2 c3 Cons by simp
      qed
    qed
  qed
qed

lemma uint_acc1: "uint (ucast (a::byte) :: 32 word) = uint a"
  by (simp add: uint_up_ucast is_up)

lemma uint_acc2:
  "uint (ucast (a::byte) * 256 + ucast (b::byte) :: 32 word) = uint a * 256 + uint b"
  using uint_byte_lt[of a] uint_byte_lt[of b] uint_ge_0[of a] uint_ge_0[of b]
  by (simp add: uint_word_ariths uint_acc1 uint_word_of_int)

lemma uint_acc3:
  "uint (ucast (a::byte) * 65536 + ucast (b::byte) * 256 + ucast (c::byte) :: 32 word)
     = uint a * 65536 + uint b * 256 + uint c"
  using uint_byte_lt[of a] uint_byte_lt[of b] uint_byte_lt[of c]
    uint_ge_0[of a] uint_ge_0[of b] uint_ge_0[of c]
  by (simp add: uint_word_ariths uint_acc1 uint_word_of_int)

lemma uint_acc4:
  "uint (ucast (a::byte) * 16777216 + ucast (b::byte) * 65536 + ucast (c::byte) * 256
       + ucast (d::byte) :: 32 word)
     = uint a * 16777216 + uint b * 65536 + uint c * 256 + uint d"
  using uint_byte_lt[of a] uint_byte_lt[of b] uint_byte_lt[of c] uint_byte_lt[of d]
    uint_ge_0[of a] uint_ge_0[of b] uint_ge_0[of c] uint_ge_0[of d]
  by (simp add: uint_word_ariths uint_acc1 uint_word_of_int)

text \<open>Up to four bytes the \<^verbatim>\<open>uint32\<close> accumulator does not wrap: it holds the big-endian value.\<close>

lemma unpack_loop_big_endian:
  assumes "length bs \<le> 4"
  shows "uint (unpack_loop bs) = big_endian bs"
  using assms
proof (cases bs rule: length_le_4_cases)
  case 1 then show ?thesis by (simp add: unpack_loop_def big_endian_def)
next
  case (2 a) then show ?thesis by (simp add: unpack_loop_def big_endian_def uint_acc1)
next
  case (3 a b) then show ?thesis
    by (simp add: unpack_loop_def big_endian_def uint_acc2 lessThan_Suc numeral_2_eq_2
        push_bit_eq_mult)
next
  case (4 a b c) then show ?thesis
    by (simp add: unpack_loop_def big_endian_def uint_acc3 lessThan_Suc numeral_3_eq_3
        push_bit_eq_mult)
next
  case (5 a b c d)
  have n4: "(4::nat) = Suc (Suc (Suc (Suc 0)))" by simp
  from 5 show ?thesis
    by (simp add: unpack_loop_def big_endian_def uint_acc4 lessThan_Suc n4 push_bit_eq_mult)
qed

lemma big_endian_nonneg: "0 \<le> big_endian bs"
  by (simp add: big_endian_def push_bit_eq_mult sum_nonneg)

lemma big_endian_3_bound:
  assumes "length bs \<le> 3"
  shows "big_endian bs < 2 ^ 24"
proof -
  from assms have "length bs \<le> 4" by simp
  then show ?thesis
  proof (cases bs rule: length_le_4_cases)
    case 1 then show ?thesis by (simp add: big_endian_def)
  next
    case (2 a) then show ?thesis using uint_byte_lt[of a] by (simp add: big_endian_def)
  next
    case (3 a b) then show ?thesis using uint_byte_lt[of a] uint_byte_lt[of b]
      by (simp add: big_endian_def lessThan_Suc numeral_2_eq_2 push_bit_eq_mult)
  next
    case (4 a b c) then show ?thesis
      using uint_byte_lt[of a] uint_byte_lt[of b] uint_byte_lt[of c]
      by (simp add: big_endian_def lessThan_Suc numeral_3_eq_3 push_bit_eq_mult)
  next
    case (5 a b c d) then show ?thesis using assms by simp
  qed
qed

lemma unpack_rounds_big_endian:
  assumes "length bs \<le> 4"
  shows "unpack bs = float32_round (of_int (big_endian bs))"
  using unpack_loop_big_endian[OF assms] by (simp add: unpack_def float32_of_uint32_def)

lemma unpack_exact:
  assumes "length bs \<le> 4" and "big_endian bs < 2 ^ 24"
  shows "unpack bs = of_int (big_endian bs)"
  using unpack_rounds_big_endian[OF assms(1)]
    float32_round_small_int[OF big_endian_nonneg assms(2)] by simp

text \<open>
  Claim C3, as amended. For every byte sequence of length 1 to 4, \<open>unpack\<close> returns the
  binary32 value nearest to the big-endian unsigned reading of the sequence (ties to even);
  it returns that reading itself whenever the reading is below \<open>2 ^ 24\<close>, in particular for
  every sequence of length 1 to 3. \<open>unpack [0x01, 0x02] = 258\<close> and
  \<open>unpack [0x00, 0x64] = 100\<close>.
\<close>

theorem unpack_big_endian:
  assumes "1 \<le> length bs" and "length bs \<le> 4"
  shows "unpack bs = float32_round (of_int (big_endian bs))
    \<and> (length bs \<le> 3 \<or> big_endian bs < 2 ^ 24 \<longrightarrow> unpack bs = of_int (big_endian bs))
    \<and> unpack [0x01, 0x02] = 258 \<and> unpack [0x00, 0x64] = 100"
proof -
  have e1: "unpack [0x01, 0x02] = 258" by code_simp
  have e2: "unpack [0x00, 0x64] = 100" by code_simp
  show ?thesis
    using unpack_rounds_big_endian[OF assms(2)] unpack_exact[OF assms(2)]
      big_endian_3_bound[of bs] e1 e2 by blast
qed

theorem unpack_big_endian_witness:
  "(1::nat) \<le> length [0x12, 0x34, 0x56 :: byte] \<and> length [0x12, 0x34, 0x56 :: byte] \<le> 4
   \<and> big_endian [0x12, 0x34, 0x56] = 1193046
   \<and> unpack [0x12, 0x34, 0x56] = 1193046"
proof -
  have b: "big_endian [0x12, 0x34, 0x56] = 1193046"
    by (simp add: big_endian_def lessThan_Suc numeral_3_eq_3)
  have "unpack [0x12, 0x34, 0x56] = of_int (big_endian [0x12, 0x34, 0x56])"
    using unpack_big_endian[of "[0x12, 0x34, 0x56]"] by simp
  with b show ?thesis by simp
qed

text \<open>
  Claim C3 as stated fails on four bytes: the reading of \<open>01 00 00 01\<close> is 16777217, which
  needs 25 significant bits, and \<^verbatim>\<open>float32(v)\<close> rounds it to 16777216.
\<close>

theorem unpack_not_exact:
  "big_endian [0x01, 0x00, 0x00, 0x01] = 16777217
   \<and> unpack [0x01, 0x00, 0x00, 0x01] = 16777216"
proof -
  have n4: "(4::nat) = Suc (Suc (Suc (Suc 0)))" by simp
  have b: "big_endian [0x01, 0x00, 0x00, 0x01] = 16777217"
    by (simp add: big_endian_def lessThan_Suc n4)
  have u: "unpack [0x01, 0x00, 0x00, 0x01] = 16777216" by code_simp
  show ?thesis using b u by simp
qed

subsection \<open>Reading a reply\<close>

declare ReadAtLeast_loop.simps [simp del]

lemma ReadAtLeast_loop_delivers:
  assumes "length acc + length (concat (map stored rs)) = m" and "m \<le> 120"
    and "list_all (\<lambda>r. failure r = None) rs"
  shows "\<exists>t'. ReadAtLeast_loop rs (acc @ replicate (120 - length acc) 0) m (length acc) None t
            = Some (t', (acc @ concat (map stored rs)) @ replicate (120 - m) 0, m, None)
          \<and> t' \<le> t + sum_list (map elapsed rs)"
  using assms
proof (induction rs arbitrary: acc t)
  case Nil
  then show ?case by (simp add: ReadAtLeast_loop.simps)
next
  case (Cons r rs)
  show ?case
  proof (cases "length acc < m")
    case False
    with Cons.prems(1) have "length acc = m" "stored r = []" "concat (map stored rs) = []"
      by auto
    then show ?thesis by (simp add: ReadAtLeast_loop.simps)
  next
    case True
    let ?acc = "acc @ stored r"
    have l: "length acc + length (stored r) \<le> 120" using Cons.prems(1,2) by simp
    have g: "take (length (acc @ replicate (120 - length acc) 0) - length acc) (stored r)
        = stored r"
      using l by simp
    have b: "take (length acc) (acc @ replicate (120 - length acc) 0) @ stored r
          @ drop (length acc + length (stored r)) (acc @ replicate (120 - length acc) (0::byte))
        = ?acc @ replicate (120 - length ?acc) 0"
      using l by simp
    have f: "failure r = None" using Cons.prems(3) by simp
    from Cons.IH[of ?acc "t + elapsed r"] Cons.prems
    obtain t' where
      "ReadAtLeast_loop rs (?acc @ replicate (120 - length ?acc) 0) m (length ?acc) None
          (t + elapsed r)
            = Some (t', (?acc @ concat (map stored rs)) @ replicate (120 - m) 0, m, None)"
      "t' \<le> t + elapsed r + sum_list (map elapsed rs)"
      by auto
    then show ?thesis
      using True
      by (subst ReadAtLeast_loop.simps) (simp only: g b f Let_def list.case, simp)
  qed
qed

text \<open>
  A reply of exactly \<open>n\<close> bytes that arrives in time is returned at the start of the
  120-byte buffer, followed by zeros.
\<close>

lemma readWithTimeout_delivers:
  assumes "delivers rs bs" and "length bs = n" and "n \<le> 120"
  shows "readWithTimeout rs n = (bs @ replicate (120 - n) 0, None)"
proof -
  from assms have a: "length ([]::byte list) + length (concat (map stored rs)) = n"
    and f: "list_all (\<lambda>r. failure r = None) rs"
    and s: "sum_list (map elapsed rs) \<le> sleep_ns" and c: "concat (map stored rs) = bs"
    by (simp_all add: delivers_def)
  from ReadAtLeast_loop_delivers[OF a assms(3) f, of 0]
  obtain t' where
    "ReadAtLeast_loop rs (replicate 120 0) n 0 None 0
       = Some (t', bs @ replicate (120 - n) 0, n, None)"
    "t' \<le> sum_list (map elapsed rs)"
    using c by auto
  then show ?thesis using s assms(3)
    by (simp add: readWithTimeout_def ReadAtLeast_def)
qed

subsection \<open>The table\<close>

lemma queryStateCommand_tiled: "tiled 0 queryStateCommand"
  by (simp add: queryStateCommand_def)

lemma queryStateCommand_total: "sum_list (map respLen queryStateCommand) = 120"
  by (simp add: queryStateCommand_def)

lemma length_queryStateCommand: "length queryStateCommand = 5"
  by (simp add: queryStateCommand_def)

lemma all_less_5: "(\<forall>i<5. P (i::nat)) \<longleftrightarrow> P 0 \<and> P 1 \<and> P 2 \<and> P 3 \<and> P 4"
proof -
  have "i < 5 \<longleftrightarrow> i = 0 \<or> i = 1 \<or> i = 2 \<or> i = 3 \<or> i = 4" for i :: nat by arith
  then show ?thesis by auto
qed

lemma upt_0_5: "[0..<5] = [0, 1, 2, 3, 4]"
  by code_simp

subsection \<open>The loop over the table, when every reply has its declared length\<close>

lemma place_reply:
  assumes "length pre = off" and "length bs = n" and "off + n \<le> 120"
  shows "place (pre @ replicate (120 - off) 0) off (bs @ replicate (120 - n) 0)
           = Some ((pre @ bs) @ replicate (120 - (off + n)) 0)"
proof -
  have "copy (replicate (120 - off) 0) (bs @ replicate (120 - n) 0)
          = bs @ replicate (120 - (off + n)) 0"
    using assms by (simp add: copy_def min_def)
  then show ?thesis using assms by (simp add: place_def)
qed

lemma query_loop_filled:
  assumes "tiled off cmds" and "off + sum_list (map respLen cmds) \<le> 120"
    and "length pre = off"
    and "\<forall>j<length cmds. fst (dev (i + j)) = None
            \<and> delivers (snd (dev (i + j))) (reply (i + j))
            \<and> length (reply (i + j)) = respLen (cmds ! j)"
  shows "query_loop cmds i dev ws (pre @ replicate (120 - off) 0)
           = (ws @ map data cmds,
              Filled ((pre @ concat (map reply [i..<i + length cmds]))
                      @ replicate (120 - (off + sum_list (map respLen cmds))) 0))"
  using assms
proof (induction cmds arbitrary: off pre i ws)
  case Nil
  then show ?case by simp
next
  case (Cons r rs)
  from Cons.prems(4) have h0: "fst (dev i) = None" "delivers (snd (dev i)) (reply i)"
    "length (reply i) = respLen r"
    by force+
  have n: "off + respLen r \<le> 120" "respLen r \<le> 120" using Cons.prems(2) by simp_all
  have rd: "readWithTimeout (snd (dev i)) (respLen r)
      = (reply i @ replicate (120 - respLen r) 0, None)"
    using readWithTimeout_delivers[OF h0(2,3) n(2)] .
  have o: "offset r = off" using Cons.prems(1) by simp
  have pl: "place (pre @ replicate (120 - off) 0) off (reply i @ replicate (120 - respLen r) 0)
      = Some ((pre @ reply i) @ replicate (120 - (off + respLen r)) 0)"
    using place_reply[OF Cons.prems(3) h0(3) n(1)] .
  have t: "tiled (off + respLen r) rs" using Cons.prems(1) by simp
  have s: "off + respLen r + sum_list (map respLen rs) \<le> 120" using Cons.prems(2) by simp
  have l: "length (pre @ reply i) = off + respLen r" using Cons.prems(3) h0(3) by simp
  have a: "\<forall>j<length rs. fst (dev (Suc i + j)) = None
            \<and> delivers (snd (dev (Suc i + j))) (reply (Suc i + j))
            \<and> length (reply (Suc i + j)) = respLen (rs ! j)"
  proof (intro allI impI)
    fix j assume "j < length rs"
    then have "Suc j < length (r # rs)" by simp
    with Cons.prems(4) have "fst (dev (i + Suc j)) = None
            \<and> delivers (snd (dev (i + Suc j))) (reply (i + Suc j))
            \<and> length (reply (i + Suc j)) = respLen ((r # rs) ! Suc j)" by blast
    then show "fst (dev (Suc i + j)) = None
            \<and> delivers (snd (dev (Suc i + j))) (reply (Suc i + j))
            \<and> length (reply (Suc i + j)) = respLen (rs ! j)" by simp
  qed
  have u: "[i..<Suc (i + length rs)] = i # [Suc i..<Suc (i + length rs)]"
    using upt_conv_Cons[of i "Suc (i + length rs)"] by simp
  show ?case
    using Cons.IH[OF t s l a, of "ws @ [data r]"]
    by (simp add: h0(1) rd o pl u add.assoc del: upt.simps)
qed

lemma query_loop_exact:
  assumes "\<forall>i<5. fst (dev i) = None \<and> delivers (snd (dev i)) (reply i)
             \<and> length (reply i) = respLen (queryStateCommand ! i)"
  shows "query_loop queryStateCommand 0 dev [] (replicate 120 0)
           = (map data queryStateCommand,
              Filled (reply 0 @ reply 1 @ reply 2 @ reply 3 @ reply 4))"
proof -
  have "query_loop queryStateCommand 0 dev [] ([] @ replicate (120 - 0) 0)
           = ([] @ map data queryStateCommand,
              Filled (([] @ concat (map reply [0..<0 + length queryStateCommand]))
                      @ replicate (120 - (0 + sum_list (map respLen queryStateCommand))) 0))"
    by (rule query_loop_filled)
      (use assms in \<open>simp_all add: queryStateCommand_tiled queryStateCommand_total
         length_queryStateCommand\<close>)
  then show ?thesis
    by (simp add: queryStateCommand_total length_queryStateCommand upt_0_5 del: upt.simps)
qed

lemma exact_lengths:
  assumes "\<forall>i<5. fst (dev i) = None \<and> delivers (snd (dev i)) (reply i)
             \<and> length (reply i) = respLen (queryStateCommand ! i)"
  shows "length (reply 0) = 11" "length (reply 1) = 6" "length (reply 2) = 51"
    "length (reply 3) = 11" "length (reply 4) = 41"
  using assms by (simp_all add: all_less_5 queryStateCommand_def)

subsection \<open>Buffer placement\<close>

text \<open>
  Claim C1. In every execution of \<open>Status\<close> in which all five exchanges succeed and each
  reply has exactly the declared length of its command, the loop writes the five request
  frames and hands a 120-byte buffer to the decoding step in which, for every command of
  the table and every \<open>k\<close> below its reply length, the byte at position \<open>offset + k\<close> is
  byte \<open>k\<close> of the reply received for that command.
\<close>

theorem buffer_placement:
  assumes "serial_Open w portName = None"
    and "\<forall>i<5. answers_exactly (answers w) i (reply i)"
  shows "\<exists>buffer t.
      query_loop queryStateCommand 0 (answers w) [] (replicate 120 0)
        = (map data queryStateCommand, Filled buffer)
      \<and> length buffer = 120
      \<and> (\<forall>i<5. \<forall>k<respLen (queryStateCommand ! i).
            buffer ! (offset (queryStateCommand ! i) + k) = reply i ! k)
      \<and> decode buffer (clock w) = Some t
      \<and> Status portName w
          = (Returns t None, Some \<lparr>written = map data queryStateCommand, closed = True\<rparr>)"
proof -
  let ?b = "reply 0 @ reply 1 @ reply 2 @ reply 3 @ reply 4"
  note a = assms(2)[unfolded answers_exactly_def]
  note l = exact_lengths[OF a]
  have q: "query_loop queryStateCommand 0 (answers w) [] (replicate 120 0)
        = (map data queryStateCommand, Filled ?b)"
    using query_loop_exact[OF a] .
  have len: "length ?b = 120" using l by simp
  have p: "\<forall>i<5. \<forall>k<respLen (queryStateCommand ! i).
            ?b ! (offset (queryStateCommand ! i) + k) = reply i ! k"
    unfolding all_less_5 using l
    by (simp add: queryStateCommand_def nth_append)
  obtain t where d: "decode ?b (clock w) = Some t"
    using len by (simp add: decode_def)
  have "Status portName w
          = (Returns t None, Some \<lparr>written = map data queryStateCommand, closed = True\<rparr>)"
    using d by (simp add: Status_def assms(1) q)
  with q len p d show ?thesis by blast
qed

lemma delivers_two_reads:
  assumes "a + b \<le> sleep_ns"
  shows "delivers [Read_returns a (take k bs) None, Read_returns b (drop k bs) None] bs"
  using assms by (simp add: delivers_def)

lemma length_example_buffer: "length example_buffer = 120"
  by (simp add: example_buffer_def)

lemma example_answers:
  "\<forall>i<5. answers_exactly (answers example_world) i (example_reply i)"
proof -
  have l: "\<forall>i<5. length (example_reply i) = respLen (queryStateCommand ! i)"
    unfolding all_less_5
    by (simp add: example_reply_def subslice_def length_example_buffer queryStateCommand_def)
  have t: "(3000000::nat) + 1000000 \<le> sleep_ns" by (simp add: sleep_ns_def)
  show ?thesis
    using l delivers_two_reads[OF t]
    by (simp add: answers_exactly_def example_world_def example_device_def)
qed

lemma example_opens: "serial_Open example_world ''COM16'' = None"
  by (simp add: example_world_def)

theorem buffer_placement_witness:
  "serial_Open example_world ''COM16'' = None
   \<and> (answers_exactly (answers example_world) 0 (example_reply 0)
      \<and> answers_exactly (answers example_world) 1 (example_reply 1)
      \<and> answers_exactly (answers example_world) 2 (example_reply 2)
      \<and> answers_exactly (answers example_world) 3 (example_reply 3)
      \<and> answers_exactly (answers example_world) 4 (example_reply 4))
   \<and> (\<exists>buffer t.
      query_loop queryStateCommand 0 (answers example_world) [] (replicate 120 0)
        = (map data queryStateCommand, Filled buffer)
      \<and> length buffer = 120
      \<and> (\<forall>i<5. \<forall>k<respLen (queryStateCommand ! i).
            buffer ! (offset (queryStateCommand ! i) + k) = example_reply i ! k)
      \<and> decode buffer (clock example_world) = Some t
      \<and> Status ''COM16'' example_world
          = (Returns t None, Some \<lparr>written = map data queryStateCommand, closed = True\<rparr>))"
proof -
  have h: "answers_exactly (answers example_world) 0 (example_reply 0)
      \<and> answers_exactly (answers example_world) 1 (example_reply 1)
      \<and> answers_exactly (answers example_world) 2 (example_reply 2)
      \<and> answers_exactly (answers example_world) 3 (example_reply 3)
      \<and> answers_exactly (answers example_world) 4 (example_reply 4)"
    using example_answers by (simp only: all_less_5)
  show ?thesis
    by (rule conjI[OF example_opens], rule conjI[OF h],
        rule buffer_placement[OF example_opens example_answers])
qed

subsection \<open>What a read and the loop return\<close>

lemma ReadAtLeast_loop_result:
  assumes "ReadAtLeast_loop rs buf m n err t = Some (t', buf', k, err')" and "n \<le> length buf"
  shows "length buf' = length buf \<and> k \<le> length buf \<and> (err' = None \<longrightarrow> m \<le> k)"
  using assms
proof (induction rs buf m n err t rule: ReadAtLeast_loop.induct)
  case (1 rs buf m n err t)
  show ?case
  proof (cases "n < m \<and> err = None")
    case False
    with "1.prems" show ?thesis by (auto simp: ReadAtLeast_loop.simps)
  next
    case True
    note c = this
    show ?thesis
    proof (cases rs)
      case Nil
      with c "1.prems" show ?thesis by (simp add: ReadAtLeast_loop.simps)
    next
      case (Cons r rs')
      define got where "got = take (length buf - n) (stored r)"
      define nbuf where "nbuf = take n buf @ got @ drop (n + length got) buf"
      have lg: "n + length got \<le> length buf" using "1.prems"(2) by (simp add: got_def)
      have ln: "length nbuf = length buf" using lg "1.prems"(2) by (simp add: nbuf_def)
      have st: "ReadAtLeast_loop rs' nbuf m (n + length got) (failure r) (t + elapsed r)
          = Some (t', buf', k, err')"
        using "1.prems"(1) c Cons
        by (subst (asm) ReadAtLeast_loop.simps) (simp add: got_def nbuf_def Let_def)
      have "length buf' = length nbuf \<and> k \<le> length nbuf \<and> (err' = None \<longrightarrow> m \<le> k)"
        using "1.IH"[OF c Cons refl] st lg ln
        unfolding nbuf_def got_def by simp
      then show ?thesis using ln by simp
    qed
  qed
qed

lemma readWithTimeout_ok:
  assumes "readWithTimeout rs n = (b, None)"
  shows "length b = 120
    \<and> (\<exists>t k. ReadAtLeast rs (replicate 120 0) n = Some (t, b, k, None) \<and> t \<le> sleep_ns \<and> n \<le> k)"
proof (cases "ReadAtLeast rs (replicate 120 0) n")
  case None
  with assms show ?thesis by (simp add: readWithTimeout_def)
next
  case (Some x)
  then obtain t buf k err where x: "ReadAtLeast rs (replicate 120 0) n = Some (t, buf, k, err)"
    by (cases x) auto
  with assms have r: "t \<le> sleep_ns" "buf = b" "err = None"
    by (auto simp: readWithTimeout_def split: if_splits)
  from x r have n: "n \<le> 120" by (auto simp: ReadAtLeast_def split: if_splits)
  with x obtain e' where l: "ReadAtLeast_loop rs (replicate 120 0) n 0 None 0 = Some (t, buf, k, e')"
    and e: "err = (if n \<le> k then None
               else if 0 < k \<and> e' = Some io_EOF then Some io_ErrUnexpectedEOF else e')"
    by (auto simp: ReadAtLeast_def split: option.splits)
  from ReadAtLeast_loop_result[OF l] have "length buf = 120" "e' = None \<longrightarrow> n \<le> k" by simp_all
  with e r have "n \<le> k" by (auto split: if_splits)
  with x r \<open>length buf = 120\<close> show ?thesis by auto
qed

lemma readWithTimeout_late:
  assumes "\<not> returns_within rs n sleep_ns"
  shows "readWithTimeout rs n = ([], Some (errors_New ''Timed out.''))"
  using assms by (auto simp: returns_within_def readWithTimeout_def split: option.splits)

lemma place_length:
  assumes "length buffer = 120" and "off \<le> 120"
  shows "\<exists>buffer'. place buffer off b = Some buffer' \<and> length buffer' = 120"
  using assms by (simp add: place_def copy_def min_def)

lemma query_loop_fails:
  assumes "i < length cmds"
    and "\<forall>j<i. fst (dev (i0 + j)) = None
            \<and> snd (readWithTimeout (snd (dev (i0 + j))) (respLen (cmds ! j))) = None"
    and "fst (dev (i0 + i)) = Some e
         \<or> fst (dev (i0 + i)) = None
            \<and> snd (readWithTimeout (snd (dev (i0 + i))) (respLen (cmds ! i))) = Some e"
    and "\<forall>r\<in>set cmds. offset r \<le> 120" and "length buffer = 120"
  shows "query_loop cmds i0 dev ws buffer
     = (ws @ map data (take (Suc i) cmds),
        if fst (dev (i0 + i)) = None
           \<and> \<not> returns_within (snd (dev (i0 + i))) (respLen (cmds ! i)) sleep_ns
        then Abandoned e else Failed e)"
  using assms
proof (induction cmds arbitrary: i i0 ws buffer)
  case Nil
  then show ?case by simp
next
  case (Cons r rs)
  show ?case
  proof (cases i)
    case 0
    with Cons.prems(3) show ?thesis
      by (auto split: prod.splits option.splits)
  next
    case (Suc i')
    from Cons.prems(2) Suc have w: "fst (dev i0) = None"
      and rd: "snd (readWithTimeout (snd (dev i0)) (respLen r)) = None"
      by force+
    obtain b where b: "readWithTimeout (snd (dev i0)) (respLen r) = (b, None)"
      using rd by (cases "readWithTimeout (snd (dev i0)) (respLen r)") auto
    from Cons.prems(4) have "offset r \<le> 120" by simp
    from place_length[OF Cons.prems(5) this]
    obtain buffer' where p: "place buffer (offset r) b = Some buffer'" and l: "length buffer' = 120"
      by blast
    have 1: "i' < length rs" using Cons.prems(1) Suc by simp
    have 2: "\<forall>j<i'. fst (dev (Suc i0 + j)) = None
            \<and> snd (readWithTimeout (snd (dev (Suc i0 + j))) (respLen (rs ! j))) = None"
    proof (intro allI impI)
      fix j assume "j < i'"
      then have "Suc j < i" using Suc by simp
      with Cons.prems(2) have "fst (dev (i0 + Suc j)) = None
            \<and> snd (readWithTimeout (snd (dev (i0 + Suc j))) (respLen ((r # rs) ! Suc j))) = None"
        by blast
      then show "fst (dev (Suc i0 + j)) = None
            \<and> snd (readWithTimeout (snd (dev (Suc i0 + j))) (respLen (rs ! j))) = None"
        by simp
    qed
    have 3: "fst (dev (Suc i0 + i')) = Some e
         \<or> fst (dev (Suc i0 + i')) = None
            \<and> snd (readWithTimeout (snd (dev (Suc i0 + i'))) (respLen (rs ! i'))) = Some e"
      using Cons.prems(3) Suc by simp
    have 4: "\<forall>r\<in>set rs. offset r \<le> 120" using Cons.prems(4) by simp
    show ?thesis
      using Cons.IH[OF 1 2 3 4 l, of "ws @ [data r]"] Suc
      by (simp add: w b p)
  qed
qed

subsection \<open>Errors\<close>

text \<open>The three ways an exchange fails: the write, the timer, the read.\<close>

lemma exchange_error_cong:
  assumes "dev i = dev' i"
  shows "exchange_error dev i = exchange_error dev' i"
  unfolding exchange_error_def assms ..

lemma exchange_error_write:
  assumes "fst (dev i) = Some e"
  shows "exchange_error dev i = Some e"
  using assms by (simp add: exchange_error_def)

lemma exchange_error_timeout:
  assumes "fst (dev i) = None"
    and "\<not> returns_within (snd (dev i)) (respLen (queryStateCommand ! i)) sleep_ns"
  shows "exchange_error dev i = Some (errors_New ''Timed out.'')"
  using assms by (simp add: exchange_error_def readWithTimeout_late)

lemma exchange_error_read:
  assumes "fst (dev i) = None"
    and "ReadAtLeast (snd (dev i)) (replicate 120 0) (respLen (queryStateCommand ! i))
           = Some (t, buf, k, Some e)"
    and "t \<le> sleep_ns"
  shows "exchange_error dev i = Some e"
  using assms by (simp add: exchange_error_def readWithTimeout_def)

text \<open>
  The loop stops at the first exchange that fails. \<open>Status\<close> then returns its error,
  unless the exchange timed out and \<^verbatim>\<open>Close\<close> does not return under the abandoned read.
\<close>

lemma Status_first_error:
  assumes "serial_Open w portName = None" and "i < 5"
    and "\<forall>j<i. exchange_error (answers w) j = None"
    and "exchange_error (answers w) i = Some e"
  shows "Status portName w
     = (if fst (answers w i) = None
           \<and> \<not> returns_within (snd (answers w i)) (respLen (queryStateCommand ! i)) sleep_ns
           \<and> \<not> Close_returns w
        then (Hangs,
              Some \<lparr>written = map data (take (Suc i) queryStateCommand), closed = False\<rparr>)
        else (Returns zero_TracerStatus (Some e),
              Some \<lparr>written = map data (take (Suc i) queryStateCommand), closed = True\<rparr>))"
proof -
  have 1: "i < length queryStateCommand" using assms(2) by (simp add: length_queryStateCommand)
  have 2: "\<forall>j<i. fst (answers w (0 + j)) = None
      \<and> snd (readWithTimeout (snd (answers w (0 + j))) (respLen (queryStateCommand ! j)))
          = None"
    using assms(3) by (auto simp: exchange_error_def split: option.splits)
  have 3: "fst (answers w (0 + i)) = Some e
      \<or> fst (answers w (0 + i)) = None
         \<and> snd (readWithTimeout (snd (answers w (0 + i))) (respLen (queryStateCommand ! i)))
             = Some e"
    using assms(4) by (auto simp: exchange_error_def split: option.splits)
  have 4: "\<forall>r\<in>set queryStateCommand. offset r \<le> 120" by (simp add: queryStateCommand_def)
  have "query_loop queryStateCommand 0 (answers w) [] (replicate 120 0)
      = ([] @ map data (take (Suc i) queryStateCommand),
         if fst (answers w (0 + i)) = None
            \<and> \<not> returns_within (snd (answers w (0 + i))) (respLen (queryStateCommand ! i))
                 sleep_ns
         then Abandoned e else Failed e)"
    by (rule query_loop_fails[OF 1 2 3 4]) simp
  then show ?thesis by (simp add: Status_def assms(1))
qed

lemma distinct_frames: "distinct (map data queryStateCommand)"
  by (simp add: queryStateCommand_def)

text \<open>
  Claim C5. Every error of an exchange (the write fails, the read has not returned within
  two seconds, or the read returns an error in time) ends the query at once: the frames
  written are those of the table up to and including the failing exchange, each once, so
  nothing is retried and no later command is sent, and what \<open>Status\<close> returns is that
  error with the zero snapshot, no field of which was decoded, the port closed. After a
  write or read failure it always returns; after a timeout it returns unless the deferred
  \<^verbatim>\<open>Close\<close> does not return under the abandoned read, and then nothing is returned.
  When the write of the first command fails, the port has seen exactly one write.
\<close>

theorem error_aborts_query:
  assumes "serial_Open w portName = None" and "i < 5"
    and "\<forall>j<i. exchange_error (answers w) j = None"
    and "fst (answers w i) = Some e
       \<or> fst (answers w i) = None
          \<and> \<not> returns_within (snd (answers w i)) (respLen (queryStateCommand ! i)) sleep_ns
          \<and> e = errors_New ''Timed out.''
       \<or> fst (answers w i) = None
          \<and> (\<exists>t buf k. ReadAtLeast (snd (answers w i)) (replicate 120 0)
                          (respLen (queryStateCommand ! i)) = Some (t, buf, k, Some e)
                \<and> t \<le> sleep_ns)"
  shows "\<exists>p. snd (Status portName w) = Some p
     \<and> written p = map data (take (Suc i) queryStateCommand)
     \<and> length (written p) = Suc i \<and> distinct (written p)
     \<and> (if fst (answers w i) = None
            \<and> \<not> returns_within (snd (answers w i)) (respLen (queryStateCommand ! i)) sleep_ns
            \<and> \<not> Close_returns w
         then fst (Status portName w) = Hangs \<and> \<not> closed p
         else fst (Status portName w) = Returns zero_TracerStatus (Some e) \<and> closed p)"
proof -
  let ?ws = "map data (take (Suc i) queryStateCommand)"
  have e: "exchange_error (answers w) i = Some e"
    using assms(4) exchange_error_write[of "answers w" i e]
      exchange_error_timeout[of "answers w" i] exchange_error_read[of "answers w" i _ _ _ e]
    by blast
  note s = Status_first_error[OF assms(1,2,3) e]
  have l: "length ?ws = Suc i"
    using assms(2) by (simp add: length_queryStateCommand)
  have d: "distinct ?ws"
    using distinct_frames distinct_take[of "map data queryStateCommand" "Suc i"]
    by (simp add: take_map)
  show ?thesis
  proof (cases "fst (answers w i) = None
            \<and> \<not> returns_within (snd (answers w i)) (respLen (queryStateCommand ! i)) sleep_ns
            \<and> \<not> Close_returns w")
    case True
    with s have "Status portName w = (Hangs, Some \<lparr>written = ?ws, closed = False\<rparr>)"
      by simp
    with True l d show ?thesis by (intro exI[of _ "\<lparr>written = ?ws, closed = False\<rparr>"]) simp
  next
    case False
    with s have "Status portName w
        = (Returns zero_TracerStatus (Some e), Some \<lparr>written = ?ws, closed = True\<rparr>)"
      by (simp only: if_False)
    with False l d show ?thesis by (intro exI[of _ "\<lparr>written = ?ws, closed = True\<rparr>"]) simp
  qed
qed

theorem error_aborts_query_witness:
  "serial_Open write_failure_world ''COM16'' = None \<and> (0::nat) < 5
   \<and> fst (answers write_failure_world 0) = Some (port_error ''write failed'')
   \<and> (\<exists>p. Status ''COM16'' write_failure_world
          = (Returns zero_TracerStatus (Some (port_error ''write failed'')), Some p)
        \<and> written p = [[0x01, 0x04, 0x32, 0x00, 0x00, 0x03, 0xbe, 0xb3]]
        \<and> length (written p) = 1 \<and> closed p)"
proof -
  have o: "serial_Open write_failure_world ''COM16'' = None"
    by (simp add: write_failure_world_def)
  have e: "fst (answers write_failure_world 0) = Some (port_error ''write failed'')"
    by (simp add: write_failure_world_def)
  have n: "\<forall>j<(0::nat). exchange_error (answers write_failure_world) j = None" by simp
  have i: "(0::nat) < 5" by simp
  from error_aborts_query[OF o i n disjI1[OF e]] e
  obtain p where "snd (Status ''COM16'' write_failure_world) = Some p"
    "fst (Status ''COM16'' write_failure_world)
       = Returns zero_TracerStatus (Some (port_error ''write failed''))"
    "written p = map data (take (Suc 0) queryStateCommand)" "length (written p) = Suc 0"
    "closed p"
    by auto
  then have "Status ''COM16'' write_failure_world
          = (Returns zero_TracerStatus (Some (port_error ''write failed'')), Some p)"
    "written p = map data (take (Suc 0) queryStateCommand)" "length (written p) = Suc 0"
    "closed p"
    by (simp_all add: prod_eq_iff)
  then have "Status ''COM16'' write_failure_world
          = (Returns zero_TracerStatus (Some (port_error ''write failed'')), Some p)
        \<and> written p = [[0x01, 0x04, 0x32, 0x00, 0x00, 0x03, 0xbe, 0xb3]]
        \<and> length (written p) = 1 \<and> closed p"
    by (simp add: queryStateCommand_def)
  with o e i show ?thesis by blast
qed

text \<open>
  On a timeout: \<open>readWithTimeout\<close> yields a reply only when \<^verbatim>\<open>io.ReadAtLeast\<close> has read
  at least the declared number of bytes within two seconds; when the read of an exchange has
  not returned by then, the frames written are those of the table up to that exchange and
  no later one, and \<open>Status\<close> returns the error \<open>Timed out.\<close> if the deferred
  \<^verbatim>\<open>Close\<close> returns, and does not return otherwise.
\<close>

lemma Status_timeout:
  assumes "serial_Open w portName = None" and "i < 5"
    and "\<forall>j<i. exchange_error (answers w) j = None"
    and "fst (answers w i) = None"
    and "\<not> returns_within (snd (answers w i)) (respLen (queryStateCommand ! i)) sleep_ns"
  shows "Status portName w
      = (if Close_returns w
         then (Returns zero_TracerStatus (Some (errors_New ''Timed out.'')),
               Some \<lparr>written = map data (take (Suc i) queryStateCommand), closed = True\<rparr>)
         else (Hangs,
               Some \<lparr>written = map data (take (Suc i) queryStateCommand), closed = False\<rparr>))
    \<and> (\<forall>j<5. \<forall>b.
          readWithTimeout (snd (answers w j)) (respLen (queryStateCommand ! j)) = (b, None)
          \<longrightarrow> (\<exists>t k. ReadAtLeast (snd (answers w j)) (replicate 120 0)
                         (respLen (queryStateCommand ! j)) = Some (t, b, k, None)
                  \<and> t \<le> sleep_ns \<and> respLen (queryStateCommand ! j) \<le> k))"
proof -
  have "exchange_error (answers w) i = Some (errors_New ''Timed out.'')"
    using assms(4,5) by (rule exchange_error_timeout)
  from Status_first_error[OF assms(1,2,3) this] assms(4,5)
  have "Status portName w
      = (if Close_returns w
         then (Returns zero_TracerStatus (Some (errors_New ''Timed out.'')),
               Some \<lparr>written = map data (take (Suc i) queryStateCommand), closed = True\<rparr>)
         else (Hangs,
               Some \<lparr>written = map data (take (Suc i) queryStateCommand), closed = False\<rparr>))"
    by simp
  with readWithTimeout_ok show ?thesis by blast
qed

lemma slow_device_late:
  "\<not> returns_within (snd (slow_device 2)) (respLen (queryStateCommand ! 2)) sleep_ns"
  by (simp add: returns_within_def slow_device_def queryStateCommand_def ReadAtLeast_def
      ReadAtLeast_loop.simps sleep_ns_def example_reply_def subslice_def length_example_buffer)

lemma example_exchange_ok:
  assumes "i < 5"
  shows "exchange_error example_device i = None"
proof -
  from example_answers assms have a: "answers_exactly example_device i (example_reply i)"
    by (simp add: example_world_def)
  then have d: "delivers (snd (example_device i)) (example_reply i)"
    and l: "length (example_reply i) = respLen (queryStateCommand ! i)"
    and w: "fst (example_device i) = None"
    by (simp_all add: answers_exactly_def)
  have "respLen (queryStateCommand ! i) \<le> 120"
    using assms all_less_5[of "\<lambda>i. respLen (queryStateCommand ! i) \<le> 120"]
    by (simp add: queryStateCommand_def)
  from readWithTimeout_delivers[OF d l this] w show ?thesis
    by (simp add: exchange_error_def)
qed

text \<open>
  On the slow device, whose port closes under a read in flight, the third exchange times
  out, three frames are written and \<open>Status\<close> returns \<open>Timed out.\<close>.
\<close>

lemma slow_world_times_out:
  "Status ''COM16'' slow_world
      = (Returns zero_TracerStatus (Some (errors_New ''Timed out.'')),
         Some \<lparr>written = [[0x01, 0x04, 0x32, 0x00, 0x00, 0x03, 0xbe, 0xb3],
                          [0x01, 0x02, 0x20, 0x00, 0x00, 0x01, 0xb2, 0x0a],
                          [0x01, 0x43, 0x31, 0x00, 0x00, 0x1b, 0x0a, 0xf2]],
               closed = True\<rparr>)"
proof -
  have o: "serial_Open slow_world ''COM16'' = None" by (simp add: slow_world_def)
  have c: "Close_returns slow_world" by (simp add: slow_world_def)
  have "answers slow_world 0 = example_device 0" "answers slow_world 1 = example_device 1"
    by (simp_all add: slow_world_def slow_device_def)
  then have e0: "exchange_error (answers slow_world) 0 = None"
    and e1: "exchange_error (answers slow_world) 1 = None"
    using example_exchange_ok[of 0] example_exchange_ok[of 1]
      exchange_error_cong[of "answers slow_world" _ example_device]
    by simp_all
  have e: "\<forall>j<2. exchange_error (answers slow_world) j = None"
  proof (intro allI impI)
    fix j :: nat assume "j < 2"
    then have "j = 0 \<or> j = 1" by arith
    then show "exchange_error (answers slow_world) j = None" using e0 e1 by auto
  qed
  have w: "fst (answers slow_world 2) = None" by (simp add: slow_world_def slow_device_def)
  have l: "\<not> returns_within (snd (answers slow_world 2)) (respLen (queryStateCommand ! 2))
      sleep_ns"
    using slow_device_late by (simp add: slow_world_def)
  have i: "(2::nat) < 5" by simp
  have t: "map data (take (Suc 2) queryStateCommand)
      = [[0x01, 0x04, 0x32, 0x00, 0x00, 0x03, 0xbe, 0xb3],
         [0x01, 0x02, 0x20, 0x00, 0x00, 0x01, 0xb2, 0x0a],
         [0x01, 0x43, 0x31, 0x00, 0x00, 0x1b, 0x0a, 0xf2]]"
    by (simp add: queryStateCommand_def)
  from Status_timeout[OF o i e w l] c
  have "Status ''COM16'' slow_world
      = (Returns zero_TracerStatus (Some (errors_New ''Timed out.'')),
         Some \<lparr>written = map data (take (Suc 2) queryStateCommand), closed = True\<rparr>)"
    by simp
  then show ?thesis unfolding t .
qed

text \<open>
  Claim C4. The waiting is as the claim says: the first exchange of a device that never
  answers ends in \<open>readWithTimeout\<close> with the error \<open>Timed out.\<close> after two seconds, and
  only the first request frame is written. But the call then runs the deferred
  \<^verbatim>\<open>port.Close()\<close> while the abandoned \<^verbatim>\<open>io.ReadAtLeast\<close> is still in \<^verbatim>\<open>port.Read\<close>; on
  a port whose \<^verbatim>\<open>Close\<close> does not return under a read in flight, \<open>Status\<close> does not
  return \<open>Timed out.\<close>: it does not return.
\<close>

theorem timeout_never_returns:
  "serial_Open silent_world ''COM16'' = None
   \<and> fst (answers silent_world 0) = None
   \<and> \<not> returns_within (snd (answers silent_world 0)) (respLen (queryStateCommand ! 0)) sleep_ns
   \<and> readWithTimeout (snd (answers silent_world 0)) (respLen (queryStateCommand ! 0))
       = ([], Some (errors_New ''Timed out.''))
   \<and> Status ''COM16'' silent_world
       = (Hangs,
          Some \<lparr>written = [[0x01, 0x04, 0x32, 0x00, 0x00, 0x03, 0xbe, 0xb3]],
                closed = False\<rparr>)"
proof -
  have o: "serial_Open silent_world ''COM16'' = None" by (simp add: silent_world_def)
  have c: "\<not> Close_returns silent_world" by (simp add: silent_world_def)
  have w: "fst (answers silent_world 0) = None" by (simp add: silent_world_def)
  have l: "\<not> returns_within (snd (answers silent_world 0)) (respLen (queryStateCommand ! 0))
      sleep_ns"
    by (simp add: silent_world_def returns_within_def ReadAtLeast_def ReadAtLeast_loop.simps
        queryStateCommand_def)
  have r: "readWithTimeout (snd (answers silent_world 0)) (respLen (queryStateCommand ! 0))
       = ([], Some (errors_New ''Timed out.''))"
    using l by (rule readWithTimeout_late)
  have e: "\<forall>j<(0::nat). exchange_error (answers silent_world) j = None" by simp
  have i: "(0::nat) < 5" by simp
  have t: "map data (take (Suc 0) queryStateCommand)
      = [[0x01, 0x04, 0x32, 0x00, 0x00, 0x03, 0xbe, 0xb3]]"
    by (simp add: queryStateCommand_def)
  from Status_timeout[OF o i e w l] c
  have "Status ''COM16'' silent_world
       = (Hangs, Some \<lparr>written = map data (take (Suc 0) queryStateCommand), closed = False\<rparr>)"
    by simp
  then show ?thesis using o w l r unfolding t by simp
qed

subsection \<open>Decoding\<close>

lemma subslice_2:
  assumes "lo + 2 \<le> length buffer"
  shows "subslice buffer lo (lo + 2) = [buffer ! lo, buffer ! (lo + 1)]"
proof -
  have "take 2 (drop lo buffer) = [drop lo buffer ! 0, drop lo buffer ! 1]"
    using assms by (simp add: list_eq_iff_nth_eq numeral_2_eq_2 less_Suc_eq)
  then show ?thesis using assms by (simp add: subslice_def)
qed

lemma unpack_2: "unpack [a, b] = of_int (uint a * 256 + uint b)"
proof -
  have b: "big_endian [a, b] = uint a * 256 + uint b"
    by (simp add: big_endian_def lessThan_Suc numeral_2_eq_2 push_bit_eq_mult)
  have "big_endian [a, b] < 2 ^ 24" by (rule big_endian_3_bound) simp
  from unpack_exact[OF _ this] b show ?thesis by simp
qed

lemma sign_correct_exact:
  "sign_correct (unpack [a, b])
     = (if 32768 < unpack [a, b] then unpack [a, b] - 65536 else unpack [a, b])"
proof -
  define k where "k = uint a * 256 + uint b"
  have k: "0 \<le> k" "k < 65536"
    using uint_byte_lt[of a] uint_byte_lt[of b] uint_ge_0[of a] uint_ge_0[of b]
    by (simp_all add: k_def)
  have "float32_round (of_int (k - 65536)) = of_int (k - 65536)"
    by (rule float32_round_int) (use k in simp)
  then show ?thesis
    by (simp add: sign_correct_def float32_sub_def unpack_2 k_def[symmetric])
qed

lemma battery_current_decode:
  assumes "length buffer = 120"
  shows "map_option BatteryCurrent (decode buffer now)
     = Some (float32_div
         (if 32768 < unpack [buffer ! 73, buffer ! 74] then unpack [buffer ! 73, buffer ! 74] - 65536
          else unpack [buffer ! 73, buffer ! 74]) 100)"
proof -
  have "subslice buffer 73 75 = [buffer ! 73, buffer ! 74]"
    using subslice_2[of 73 buffer] assms by simp
  then show ?thesis using assms by (simp add: decode_def sign_correct_exact)
qed

lemma length_battery_current_buffer: "length (battery_current_buffer hi lo) = 120"
  by (simp add: battery_current_buffer_def)

lemma battery_current_buffer_nth:
  "battery_current_buffer hi lo ! 73 = hi" "battery_current_buffer hi lo ! 74 = lo"
  by (simp_all add: battery_current_buffer_def nth_append)

lemma battery_current_of_buffer:
  "map_option BatteryCurrent (decode (battery_current_buffer hi lo) now)
     = Some (float32_div
         (if 32768 < unpack [hi, lo] then unpack [hi, lo] - 65536 else unpack [hi, lo]) 100)"
  using battery_current_decode[OF length_battery_current_buffer, of hi lo now]
  by (simp only: battery_current_buffer_nth)

text \<open>
  Claim C2. Battery current is the one signed field: when the value unpacked from bytes 73
  and 74 exceeds 32768, 65536 is subtracted before the division by 100
  (\<open>battery_current_decode\<close>). Raw 32767 decodes as +327.67, raw 0 as 0 and raw 32769
  as -327.67. At the boundary the comparison \<^verbatim>\<open>bc > 32768\<close> does not hold: raw 32768
  decodes as +327.68, not as -327.68.
\<close>

theorem battery_current_boundary:
  "map_option BatteryCurrent (decode (battery_current_buffer 0x80 0x00) now)
      = Some (float32_round (32768 / 100))
   \<and> float32_round (32768 / 100) = 5368709 / 16384
   \<and> float32_round (32768 / 100) \<noteq> float32_round (- 32768 / 100)
   \<and> map_option BatteryCurrent (decode (battery_current_buffer 0x7F 0xFF) now)
      = Some (float32_round (32767 / 100))
   \<and> map_option BatteryCurrent (decode (battery_current_buffer 0x00 0x00) now) = Some 0
   \<and> map_option BatteryCurrent (decode (battery_current_buffer 0x80 0x01) now)
      = Some (float32_round (- 32767 / 100))"
proof -
  have u: "unpack [0x80, 0x00] = 32768" "unpack [0x7F, 0xFF] = 32767" "unpack [0x00, 0x00] = 0"
    "unpack [0x80, 0x01] = 32769"
    by (simp_all add: unpack_2)
  have r: "float32_round (32768 / 100) = 5368709 / 16384" by code_simp
  have n: "float32_round (- 32768 / 100) = - (5368709 / 16384)" by code_simp
  have z: "float32_round 0 = 0" by (simp add: float32_round_def)
  have d: "float32_div x 100 = float32_round (x / 100)" for x
    by (simp only: float32_div_def)
  have c1: "map_option BatteryCurrent (decode (battery_current_buffer 0x80 0x00) now)
      = Some (float32_div 32768 100)"
    unfolding battery_current_of_buffer u by simp
  have c2: "map_option BatteryCurrent (decode (battery_current_buffer 0x7F 0xFF) now)
      = Some (float32_div 32767 100)"
    unfolding battery_current_of_buffer u by simp
  have c3: "map_option BatteryCurrent (decode (battery_current_buffer 0x00 0x00) now)
      = Some (float32_div 0 100)"
    unfolding battery_current_of_buffer u by simp
  have c4: "map_option BatteryCurrent (decode (battery_current_buffer 0x80 0x01) now)
      = Some (float32_div (- 32767) 100)"
    unfolding battery_current_of_buffer u by simp
  have ne: "float32_round (32768 / 100) \<noteq> float32_round (- 32768 / 100)"
    unfolding r n by simp
  show ?thesis
    unfolding c1 c2 c3 c4 d using r ne z by simp
qed

lemma length_subslice:
  assumes "hi \<le> length buffer"
  shows "length (subslice buffer lo hi) = hi - lo"
  using assms by (simp add: subslice_def)

text \<open>
  Claim C6, as amended. Every decoded field but \<open>Load\<close> and \<open>BatterySOC\<close> is the
  binary32 quotient by 100 of the value unpacked from the field's byte range, where for
  \<open>BatteryCurrent\<close> 65536 is first subtracted from the unpacked value when it exceeds
  32768. The unpacked value is the big-endian reading of the range, rounded to binary32.
  Raw 1234 decodes to 12.34, that is to the binary32 value nearest to 12.34.
\<close>

theorem scaling:
  assumes "length buffer = 120"
  shows "\<exists>t. decode buffer now = Some t
    \<and> ArrayVoltage t = float32_div (unpack (subslice buffer 24 26)) 100
    \<and> ArrayCurrent t = float32_div (unpack (subslice buffer 26 28)) 100
    \<and> ArrayPower t = float32_div (unpack (subslice buffer 28 30)) 100
    \<and> BatteryVoltage t = float32_div (unpack (subslice buffer 32 34)) 100
    \<and> LoadVoltage t = float32_div (unpack (subslice buffer 40 42)) 100
    \<and> LoadCurrent t = float32_div (unpack (subslice buffer 42 44)) 100
    \<and> LoadPower t = float32_div (unpack (subslice buffer 44 46)) 100
    \<and> BatteryTemp t = float32_div (unpack (subslice buffer 56 58)) 100
    \<and> DeviceTemp t = float32_div (unpack (subslice buffer 58 60)) 100
    \<and> BatteryMaxVoltage t = float32_div (unpack (subslice buffer 82 84)) 100
    \<and> BatteryMinVoltage t = float32_div (unpack (subslice buffer 84 86)) 100
    \<and> EnergyConsumedDaily t = float32_div (unpack (subslice buffer 86 88)) 100
    \<and> EnergyConsumedMonthly t = float32_div (unpack (subslice buffer 88 92)) 100
    \<and> EnergyConsumedAnnual t = float32_div (unpack (subslice buffer 92 96)) 100
    \<and> EnergyConsumedTotal t = float32_div (unpack (subslice buffer 96 100)) 100
    \<and> EnergyGeneratedDaily t = float32_div (unpack (subslice buffer 100 104)) 100
    \<and> EnergyGeneratedMonthly t = float32_div (unpack (subslice buffer 104 108)) 100
    \<and> EnergyGeneratedAnnual t = float32_div (unpack (subslice buffer 108 112)) 100
    \<and> EnergyGeneratedTotal t = float32_div (unpack (subslice buffer 112 116)) 100
    \<and> BatteryCurrent t
        = float32_div
            (if 32768 < unpack (subslice buffer 73 75)
             then unpack (subslice buffer 73 75) - 65536
             else unpack (subslice buffer 73 75)) 100
    \<and> (unpack (subslice buffer 73 75) \<le> 32768
         \<longrightarrow> BatteryCurrent t = float32_div (unpack (subslice buffer 73 75)) 100)
    \<and> (\<forall>lo hi. hi \<le> 120 \<and> hi - lo \<le> 4
         \<longrightarrow> unpack (subslice buffer lo hi)
             = float32_round (of_int (big_endian (subslice buffer lo hi))))
    \<and> float32_div (unpack [0x04, 0xD2]) 100 = float32_round (1234 / 100)
    \<and> \<bar>float32_round (1234 / 100) - 1234 / 100\<bar> \<le> 1 / 2 ^ 21"
proof -
  have s: "subslice buffer 73 75 = [buffer ! 73, buffer ! 74]"
    using subslice_2[of 73 buffer] assms by simp
  have b: "sign_correct (unpack (subslice buffer 73 75))
      = (if 32768 < unpack (subslice buffer 73 75)
         then unpack (subslice buffer 73 75) - 65536
         else unpack (subslice buffer 73 75))"
    unfolding s by (rule sign_correct_exact)
  have u: "\<forall>lo hi. hi \<le> 120 \<and> hi - lo \<le> 4
         \<longrightarrow> unpack (subslice buffer lo hi)
             = float32_round (of_int (big_endian (subslice buffer lo hi)))"
    using assms by (auto intro!: unpack_rounds_big_endian simp: length_subslice)
  have e: "float32_div (unpack [0x04, 0xD2]) 100 = float32_round (1234 / 100)"
    by (simp only: unpack_2 float32_div_def) simp
  have r: "float32_round (1234 / 100) = 3234857 / 262144" by code_simp
  have a: "\<bar>float32_round (1234 / 100) - 1234 / 100\<bar> \<le> 1 / 2 ^ 21"
    unfolding r by simp
  show ?thesis
    using assms b u e a by (simp add: decode_def)
qed

lemma example_buffer_bytes:
  "example_buffer ! 8 = 0x01" "example_buffer ! 24 = 0x04" "example_buffer ! 25 = 0xD2"
  "example_buffer ! 65 = 0x50" "example_buffer ! 73 = 0xFF" "example_buffer ! 74 = 0x38"
  by (simp_all add: example_buffer_def nth_append)

theorem scaling_witness:
  "length example_buffer = 120
   \<and> (\<exists>t. decode example_buffer 1446336000 = Some t
        \<and> ArrayVoltage t = float32_round (1234 / 100)
        \<and> BatteryCurrent t = float32_round (- 200 / 100))"
proof -
  from scaling[OF length_example_buffer, of 1446336000]
  obtain t where t: "decode example_buffer 1446336000 = Some t"
    "ArrayVoltage t = float32_div (unpack (subslice example_buffer 24 26)) 100"
    "BatteryCurrent t
        = float32_div
            (if 32768 < unpack (subslice example_buffer 73 75)
             then unpack (subslice example_buffer 73 75) - 65536
             else unpack (subslice example_buffer 73 75)) 100"
    by blast
  have s: "subslice example_buffer 24 26 = [0x04, 0xD2]"
    "subslice example_buffer 73 75 = [0xFF, 0x38]"
    using subslice_2[of 24 example_buffer] subslice_2[of 73 example_buffer]
    by (simp_all add: length_example_buffer example_buffer_bytes)
  have u: "unpack [0x04, 0xD2] = 1234" "unpack [0xFF, 0x38] = 65336"
    by (simp_all add: unpack_2)
  have "ArrayVoltage t = float32_round (1234 / 100)"
    unfolding t(2) s u by (simp only: float32_div_def)
  moreover have "BatteryCurrent t = float32_round (- 200 / 100)"
    unfolding t(3) s u by (simp add: float32_div_def)
  ultimately show ?thesis using t(1) length_example_buffer by blast
qed

text \<open>
  Claim C6 as stated fails for the battery current: with \<open>FF FF\<close> at bytes 73 and 74
  the unpacked value is 65535, and the stored value is -0.01, not 655.35.
\<close>

theorem scaling_battery_current_signed:
  "map_option BatteryCurrent (decode (battery_current_buffer 0xFF 0xFF) 0)
      = Some (float32_round (- 1 / 100))
   \<and> float32_div (unpack (subslice (battery_current_buffer 0xFF 0xFF) 73 75)) 100
      = float32_round (65535 / 100)
   \<and> float32_round (- 1 / 100) \<noteq> float32_round (65535 / 100)"
proof -
  have u: "unpack [0xFF, 0xFF] = 65535" by (simp add: unpack_2)
  have s: "subslice (battery_current_buffer 0xFF 0xFF) 73 75 = [0xFF, 0xFF]"
    using subslice_2[of 73 "battery_current_buffer 0xFF 0xFF"]
    by (simp add: length_battery_current_buffer battery_current_buffer_nth)
  have d: "float32_div x 100 = float32_round (x / 100)" for x
    by (simp only: float32_div_def)
  have c: "map_option BatteryCurrent (decode (battery_current_buffer 0xFF 0xFF) 0)
      = Some (float32_div (- 1) 100)"
    unfolding battery_current_of_buffer u by simp
  have r: "float32_round (- 1 / 100) = - (5368709 / 536870912)" by code_simp
  have p: "float32_round (65535 / 100) = 5368627 / 8192" by code_simp
  have ne: "float32_round (- 1 / 100) \<noteq> float32_round (65535 / 100)"
    unfolding r p by simp
  show ?thesis
    unfolding c s u d using ne by simp
qed

text \<open>
  Claim C9. Decoding the same 120-byte buffer twice yields the same value in every field
  but the timestamp, which is the time of the decoding.
\<close>

theorem decode_deterministic:
  assumes "length buffer = 120"
  shows "\<exists>t1 t2. decode buffer now1 = Some t1 \<and> decode buffer now2 = Some t2
     \<and> t1\<lparr>Timestamp := ts\<rparr> = t2\<lparr>Timestamp := ts\<rparr>
     \<and> Timestamp t1 = now1 \<and> Timestamp t2 = now2"
  using assms by (simp add: decode_def)

theorem decode_deterministic_witness:
  "length example_buffer = 120
   \<and> (\<exists>t1 t2. decode example_buffer 1446336000 = Some t1
         \<and> decode example_buffer 1446336060 = Some t2
         \<and> t1\<lparr>Timestamp := 0\<rparr> = t2\<lparr>Timestamp := 0\<rparr>
         \<and> Timestamp t1 = 1446336000 \<and> Timestamp t2 = 1446336060)"
  using decode_deterministic[OF length_example_buffer, of 1446336000 1446336060 0]
    length_example_buffer by blast

lemma example_replies_buffer:
  "example_reply 0 @ example_reply 1 @ example_reply 2 @ example_reply 3 @ example_reply 4
     = example_buffer"
proof -
  have a: "take n (drop k xs) @ drop (k + n) xs = drop k xs" for n k and xs :: "byte list"
    by (metis append_take_drop_id drop_drop add.commute)
  have "drop 79 example_buffer = take 41 (drop 79 example_buffer)"
    by (simp add: length_example_buffer)
  then have "example_reply 4 = drop 79 example_buffer"
    by (simp add: example_reply_def subslice_def queryStateCommand_def)
  moreover have "example_reply 3 = take 11 (drop 68 example_buffer)"
    "example_reply 2 = take 51 (drop 17 example_buffer)"
    "example_reply 1 = take 6 (drop 11 example_buffer)"
    "example_reply 0 = take 11 example_buffer"
    by (simp_all add: example_reply_def subslice_def queryStateCommand_def)
  ultimately show ?thesis
    using a[of 11 68 example_buffer] a[of 51 17 example_buffer] a[of 6 11 example_buffer]
    by simp
qed

text \<open>
  Claim C7. When the five replies have exactly their declared lengths, \<open>Status\<close> returns
  a snapshot and no error; \<open>Load\<close> holds exactly when byte 8 of the assembled buffer is 1
  (any other byte, also one greater than 1, gives \<open>False\<close>), and \<open>BatterySOC\<close> is byte
  65 as it is. With byte 8 = \<open>01\<close>, bytes 24 and 25 = \<open>04 D2\<close> and byte 65 = \<open>50\<close> the
  snapshot has \<open>Load = True\<close>, \<open>ArrayVoltage = 12.34\<close> (the binary32 value nearest to
  it) and \<open>BatterySOC = 80\<close>.
\<close>

theorem end_to_end:
  assumes "serial_Open w portName = None"
    and "\<forall>i<5. answers_exactly (answers w) i (reply i)"
  shows "\<exists>buffer t.
      query_loop queryStateCommand 0 (answers w) [] (replicate 120 0)
        = (map data queryStateCommand, Filled buffer)
      \<and> buffer = reply 0 @ reply 1 @ reply 2 @ reply 3 @ reply 4
      \<and> Status portName w
          = (Returns t None, Some \<lparr>written = map data queryStateCommand, closed = True\<rparr>)
      \<and> (Load t \<longleftrightarrow> buffer ! 8 = 1)
      \<and> BatterySOC t = uint (buffer ! 65)
      \<and> (buffer ! 8 = 0x01 \<and> buffer ! 24 = 0x04 \<and> buffer ! 25 = 0xD2 \<and> buffer ! 65 = 0x50
           \<longrightarrow> Load t \<and> ArrayVoltage t = float32_round (1234 / 100) \<and> BatterySOC t = 80)"
proof -
  let ?b = "reply 0 @ reply 1 @ reply 2 @ reply 3 @ reply 4"
  note a = assms(2)[unfolded answers_exactly_def]
  note l = exact_lengths[OF a]
  have q: "query_loop queryStateCommand 0 (answers w) [] (replicate 120 0)
        = (map data queryStateCommand, Filled ?b)"
    using query_loop_exact[OF a] .
  have len: "length ?b = 120" using l by simp
  obtain t where d: "decode ?b (clock w) = Some t"
    using len by (simp add: decode_def)
  have s: "Status portName w
          = (Returns t None, Some \<lparr>written = map data queryStateCommand, closed = True\<rparr>)"
    using d by (simp add: Status_def assms(1) q)
  have ld: "Load t \<longleftrightarrow> ?b ! 8 = 1"
    using d len by (auto simp: decode_def word_uint_eq_iff)
  have soc: "BatterySOC t = uint (?b ! 65)"
    using d len by (auto simp: decode_def)
  have av: "ArrayVoltage t = float32_div (unpack [?b ! 24, ?b ! 25]) 100"
    using d len subslice_2[of 24 ?b] by (auto simp: decode_def)
  have u: "unpack [0x04, 0xD2] = 1234" by (simp add: unpack_2)
  have "Load t \<and> ArrayVoltage t = float32_round (1234 / 100) \<and> BatterySOC t = 80"
    if "?b ! 8 = 0x01 \<and> ?b ! 24 = 0x04 \<and> ?b ! 25 = 0xD2 \<and> ?b ! 65 = 0x50"
  proof -
    from that av have "ArrayVoltage t = float32_div (unpack [0x04, 0xD2]) 100" by simp
    then have "ArrayVoltage t = float32_round (1234 / 100)"
      unfolding u by (simp only: float32_div_def)
    moreover have "Load t" using ld that by simp
    moreover have "BatterySOC t = 80" using soc that by simp
    ultimately show ?thesis by simp
  qed
  with q s ld soc show ?thesis by blast
qed

theorem end_to_end_witness:
  "serial_Open example_world ''COM16'' = None
   \<and> (answers_exactly (answers example_world) 0 (example_reply 0)
      \<and> answers_exactly (answers example_world) 1 (example_reply 1)
      \<and> answers_exactly (answers example_world) 2 (example_reply 2)
      \<and> answers_exactly (answers example_world) 3 (example_reply 3)
      \<and> answers_exactly (answers example_world) 4 (example_reply 4))
   \<and> (\<exists>t. Status ''COM16'' example_world
          = (Returns t None, Some \<lparr>written = map data queryStateCommand, closed = True\<rparr>)
        \<and> Load t \<and> ArrayVoltage t = float32_round (1234 / 100) \<and> BatterySOC t = 80)"
proof -
  have h: "answers_exactly (answers example_world) 0 (example_reply 0)
      \<and> answers_exactly (answers example_world) 1 (example_reply 1)
      \<and> answers_exactly (answers example_world) 2 (example_reply 2)
      \<and> answers_exactly (answers example_world) 3 (example_reply 3)
      \<and> answers_exactly (answers example_world) 4 (example_reply 4)"
    using example_answers by (simp only: all_less_5)
  from end_to_end[OF example_opens example_answers]
  obtain buffer t where
    b: "buffer = example_reply 0 @ example_reply 1 @ example_reply 2 @ example_reply 3
          @ example_reply 4"
    and s: "Status ''COM16'' example_world
          = (Returns t None, Some \<lparr>written = map data queryStateCommand, closed = True\<rparr>)"
    and i: "buffer ! 8 = 0x01 \<and> buffer ! 24 = 0x04 \<and> buffer ! 25 = 0xD2 \<and> buffer ! 65 = 0x50
           \<longrightarrow> Load t \<and> ArrayVoltage t = float32_round (1234 / 100) \<and> BatterySOC t = 80"
    by blast
  have "buffer = example_buffer" using b example_replies_buffer by simp
  with i have "Load t \<and> ArrayVoltage t = float32_round (1234 / 100) \<and> BatterySOC t = 80"
    by (simp add: example_buffer_bytes)
  with s h example_opens show ?thesis by blast
qed

lemma query_loop_writes:
  "\<exists>n. fst (query_loop cmds i dev ws buffer) = ws @ take n (map data cmds)"
proof (induction cmds arbitrary: i ws buffer)
  case Nil
  then show ?case by simp
next
  case (Cons r rs)
  have one: "\<exists>n. ws @ [data r] = ws @ take n (map data (r # rs))"
    by (rule exI[of _ 1]) simp
  show ?case
  proof (cases "fst (dev i)")
    case (Some e)
    then show ?thesis using one by simp
  next
    case None
    note w = this
    obtain b err where rd: "readWithTimeout (snd (dev i)) (respLen r) = (b, err)"
      by (cases "readWithTimeout (snd (dev i)) (respLen r)") auto
    show ?thesis
    proof (cases err)
      case (Some e)
      then show ?thesis using one w rd by simp
    next
      case None
      note e = this
      show ?thesis
      proof (cases "place buffer (offset r) b")
        case None
        then show ?thesis using one w rd e by simp
      next
        case (Some buffer')
        from Cons.IH[of "Suc i" "ws @ [data r]" buffer']
        obtain n where "fst (query_loop rs (Suc i) dev (ws @ [data r]) buffer')
            = (ws @ [data r]) @ take n (map data rs)" by blast
        then have "fst (query_loop (r # rs) i dev ws buffer)
            = ws @ take (Suc n) (map data (r # rs))"
          using w rd e Some by simp
        then show ?thesis by blast
      qed
    qed
  qed
qed

text \<open>
  Claim C8. The command table holds exactly these five descriptors, in this order. The
  table is a constant: \<open>Status\<close> only reads it, and in every run the frames it writes
  are an initial segment of the request frames of the table.
\<close>

theorem frame_table:
  "queryStateCommand =
     [\<lparr>data = [0x01, 0x04, 0x32, 0x00, 0x00, 0x03, 0xBE, 0xB3], respLen = 11, offset = 0\<rparr>,
      \<lparr>data = [0x01, 0x02, 0x20, 0x00, 0x00, 0x01, 0xB2, 0x0A], respLen = 6, offset = 11\<rparr>,
      \<lparr>data = [0x01, 0x43, 0x31, 0x00, 0x00, 0x1B, 0x0A, 0xF2], respLen = 51, offset = 17\<rparr>,
      \<lparr>data = [0x01, 0x04, 0x33, 0x1A, 0x00, 0x03, 0x9E, 0x88], respLen = 11, offset = 68\<rparr>,
      \<lparr>data = [0x01, 0x04, 0x33, 0x02, 0x00, 0x12, 0xDE, 0x83], respLen = 41, offset = 79\<rparr>]
   \<and> length queryStateCommand = 5
   \<and> (\<exists>n. frames_written portName w = take n (map data queryStateCommand))"
proof -
  have "\<exists>n. frames_written portName w = take n (map data queryStateCommand)"
  proof (cases "serial_Open w portName")
    case (Some e)
    then have "frames_written portName w = take 0 (map data queryStateCommand)"
      by (simp add: frames_written_def Status_def)
    then show ?thesis by blast
  next
    case None
    from query_loop_writes[of queryStateCommand 0 "answers w" "[]" "replicate 120 0"]
    obtain n where n: "fst (query_loop queryStateCommand 0 (answers w) [] (replicate 120 0))
        = take n (map data queryStateCommand)" by auto
    have "frames_written portName w
        = fst (query_loop queryStateCommand 0 (answers w) [] (replicate 120 0))"
      using None
      by (auto simp: frames_written_def Status_def split: prod.splits loop_result.splits
          option.splits if_splits)
    with n show ?thesis by auto
  qed
  then show ?thesis by (simp add: queryStateCommand_def)
qed

lemma earlier_region_below:
  assumes "i < j" and "j < 5"
  shows "offset (queryStateCommand ! i) + respLen (queryStateCommand ! i)
           \<le> offset (queryStateCommand ! j)"
proof -
  have "j = 1 \<and> i = 0 \<or> j = 2 \<and> (i = 0 \<or> i = 1) \<or> j = 3 \<and> (i = 0 \<or> i = 1 \<or> i = 2)
      \<or> j = 4 \<and> (i = 0 \<or> i = 1 \<or> i = 2 \<or> i = 3)"
    using assms by arith
  then show ?thesis by (auto simp: queryStateCommand_def)
qed

lemma offset_le_79:
  assumes "j < 5"
  shows "offset (queryStateCommand ! j) \<le> 79"
  using assms all_less_5[of "\<lambda>j. offset (queryStateCommand ! j) \<le> 79"]
  by (simp add: queryStateCommand_def)

text \<open>
  Claim C10. The regions of the five descriptors partition the 120-byte buffer in
  increasing order: each offset is the previous offset plus the previous reply length, and
  the last region ends at 120. The copy of a reply writes from the descriptor's offset to
  the end of the buffer; since every earlier descriptor's region ends at or below that
  offset, the copy leaves the earlier regions as they were.
\<close>

theorem table_tiles_buffer:
  assumes "i < j" and "j < 5" and "length buffer = 120"
    and "readWithTimeout rs (respLen (queryStateCommand ! j)) = (b, None)"
  shows "map offset queryStateCommand = [0, 11, 17, 68, 79]
    \<and> map respLen queryStateCommand = [11, 6, 51, 11, 41]
    \<and> tiled 0 queryStateCommand
    \<and> sum_list (map respLen queryStateCommand) = 120
    \<and> (\<exists>buffer'. place buffer (offset (queryStateCommand ! j)) b = Some buffer'
         \<and> length buffer' = 120
         \<and> (\<forall>p. offset (queryStateCommand ! j) \<le> p \<and> p < 120
               \<longrightarrow> buffer' ! p = b ! (p - offset (queryStateCommand ! j)))
         \<and> (\<forall>k<respLen (queryStateCommand ! i).
               buffer' ! (offset (queryStateCommand ! i) + k)
                 = buffer ! (offset (queryStateCommand ! i) + k)))"
proof -
  let ?o = "offset (queryStateCommand ! j)"
  have lb: "length b = 120" using readWithTimeout_ok[OF assms(4)] by simp
  have o: "?o \<le> 79" using offset_le_79[OF assms(2)] .
  define buffer' where "buffer' = take ?o buffer @ take (120 - ?o) b"
  have p: "place buffer ?o b = Some buffer'"
    using assms(3) lb o by (simp add: place_def copy_def buffer'_def min_def)
  have l: "length buffer' = 120" using assms(3) lb o by (simp add: buffer'_def)
  have hi: "\<forall>p. ?o \<le> p \<and> p < 120 \<longrightarrow> buffer' ! p = b ! (p - ?o)"
    using assms(3) lb o by (auto simp: buffer'_def nth_append)
  have lo: "\<forall>k<respLen (queryStateCommand ! i).
               buffer' ! (offset (queryStateCommand ! i) + k)
                 = buffer ! (offset (queryStateCommand ! i) + k)"
    using earlier_region_below[OF assms(1,2)] assms(3) o
    by (auto simp: buffer'_def nth_append)
  have t: "map offset queryStateCommand = [0, 11, 17, 68, 79]"
    "map respLen queryStateCommand = [11, 6, 51, 11, 41]"
    by (simp_all add: queryStateCommand_def)
  show ?thesis
    using t queryStateCommand_tiled queryStateCommand_total p l hi lo by blast
qed


theorem table_tiles_buffer_witness:
  "(0::nat) < 1 \<and> (1::nat) < 5 \<and> length (example_reply 0 @ replicate 109 0) = 120
   \<and> readWithTimeout (snd (example_device 1)) (respLen (queryStateCommand ! 1))
       = (example_reply 1 @ replicate 114 0, None)
   \<and> (\<exists>buffer'.
        place (example_reply 0 @ replicate 109 0) (offset (queryStateCommand ! 1))
          (example_reply 1 @ replicate 114 0) = Some buffer'
        \<and> length buffer' = 120
        \<and> (\<forall>k<respLen (queryStateCommand ! 0).
              buffer' ! (offset (queryStateCommand ! 0) + k)
                = (example_reply 0 @ replicate 109 0) ! (offset (queryStateCommand ! 0) + k)))"
proof -
  from example_answers have a: "answers_exactly example_device 1 (example_reply 1)"
    and a0: "answers_exactly example_device 0 (example_reply 0)"
    by (simp_all add: example_world_def)
  have r: "respLen (queryStateCommand ! 1) = 6" "respLen (queryStateCommand ! 0) = 11"
    by (simp_all add: queryStateCommand_def)
  have rd: "readWithTimeout (snd (example_device 1)) (respLen (queryStateCommand ! 1))
       = (example_reply 1 @ replicate 114 0, None)"
    using readWithTimeout_delivers[of "snd (example_device 1)" "example_reply 1" 6] a r
    by (simp add: answers_exactly_def)
  have l: "length (example_reply 0 @ replicate 109 0) = 120"
    using a0 r by (simp add: answers_exactly_def)
  have i: "(0::nat) < 1" and j: "(1::nat) < 5" by simp_all
  from table_tiles_buffer[OF i j l rd]
  have "\<exists>buffer'.
        place (example_reply 0 @ replicate 109 0) (offset (queryStateCommand ! 1))
          (example_reply 1 @ replicate 114 0) = Some buffer'
        \<and> length buffer' = 120
        \<and> (\<forall>k<respLen (queryStateCommand ! 0).
              buffer' ! (offset (queryStateCommand ! 0) + k)
                = (example_reply 0 @ replicate 109 0) ! (offset (queryStateCommand ! 0) + k))"
    by blast
  with i j l rd show ?thesis by blast
qed

subsection \<open>No panic\<close>

text \<open>
  The offsets of the table lie within the buffer and the buffer keeps its 120 bytes, so
  neither the slice expression of the copy nor an index of the decoding step is ever out of
  range: \<open>Status\<close> never panics, and it returns whenever \<^verbatim>\<open>Close\<close> returns.
\<close>

lemma query_loop_no_panic:
  assumes "\<forall>r\<in>set cmds. offset r \<le> 120" and "length buffer = 120"
  shows "snd (query_loop cmds i dev ws buffer) \<noteq> Panicked
    \<and> (\<forall>b. snd (query_loop cmds i dev ws buffer) = Filled b \<longrightarrow> length b = 120)"
  using assms
proof (induction cmds arbitrary: i ws buffer)
  case Nil
  then show ?case by simp
next
  case (Cons r rs)
  show ?case
  proof (cases "fst (dev i)")
    case (Some e)
    then show ?thesis by simp
  next
    case None
    note w = this
    obtain b err where rd: "readWithTimeout (snd (dev i)) (respLen r) = (b, err)"
      by (cases "readWithTimeout (snd (dev i)) (respLen r)") auto
    show ?thesis
    proof (cases err)
      case (Some e)
      then show ?thesis using w rd by simp
    next
      case None
      from Cons.prems(1) have "offset r \<le> 120" by simp
      from place_length[OF Cons.prems(2) this]
      obtain buffer' where p: "place buffer (offset r) b = Some buffer'"
        and l: "length buffer' = 120" by blast
      have "\<forall>r\<in>set rs. offset r \<le> 120" using Cons.prems(1) by simp
      from Cons.IH[OF this l, of "Suc i" "ws @ [data r]"] show ?thesis
        using w rd None p by simp
    qed
  qed
qed

lemma Status_never_panics: "fst (Status portName w) \<noteq> Panics"
proof (cases "serial_Open w portName")
  case (Some e)
  then show ?thesis by (simp add: Status_def)
next
  case None
  have o: "\<forall>r\<in>set queryStateCommand. offset r \<le> 120" by (simp add: queryStateCommand_def)
  obtain ws res where q: "query_loop queryStateCommand 0 (answers w) [] (replicate 120 0)
      = (ws, res)"
    by (cases "query_loop queryStateCommand 0 (answers w) [] (replicate 120 0)") auto
  from query_loop_no_panic[OF o, of "replicate 120 0" 0 "answers w" "[]"] q
  have r: "res \<noteq> Panicked" "\<forall>b. res = Filled b \<longrightarrow> length b = 120" by simp_all
  show ?thesis
  proof (cases res)
    case (Filled b)
    with r have "length b = 120" by simp
    then show ?thesis using None q Filled by (simp add: Status_def decode_def)
  next
    case (Failed e)
    then show ?thesis using None q by (simp add: Status_def)
  next
    case (Abandoned e)
    then show ?thesis using None q by (simp add: Status_def)
  next
    case Panicked
    with r show ?thesis by simp
  qed
qed

lemma Status_returns:
  assumes "Close_returns w"
  shows "\<exists>t err. fst (Status portName w) = Returns t err"
proof (cases "fst (Status portName w)")
  case (Returns t err)
  then show ?thesis by blast
next
  case Panics
  then show ?thesis using Status_never_panics[of portName w] by simp
next
  case Hangs
  then show ?thesis using assms
    by (auto simp: Status_def split: option.splits prod.splits loop_result.splits if_splits)
qed

end
